theory Spec2Isabelle
  imports Main "HOL-Library.Sublist"
begin

section \<open>uacme: the ACME protocol driver of \<^verbatim>\<open>uacme.c\<close>\<close>

text \<open>
  A shallow embedding of \<^verbatim>\<open>src/uacme.c\<close>. C strings are \<open>string\<close>s (the bytes
  before the terminating NUL), a \<^verbatim>\<open>char *\<close> that may be \<^verbatim>\<open>NULL\<close> is a
  \<open>string option\<close>, and every interaction with the outside (libcurl, the hook child
  process, the terminal, the file system, the crypto and JSON modules that are not part
  of the file) is a call that is appended to a history and answered by the environment.
\<close>

subsection \<open>Characters\<close>

definition NUL :: char where "NUL = CHR 0x00"
definition CR :: char where "CR = CHR 0x0D"
definition LF :: char where "LF = CHR 0x0A"

text \<open>\<^verbatim>\<open>isupper\<close>, \<^verbatim>\<open>islower\<close>, \<^verbatim>\<open>isdigit\<close> of \<^verbatim>\<open>ctype.h\<close> in the "C" locale (the
  program sets no other locale for \<^verbatim>\<open>LC_CTYPE\<close>).\<close>

definition isupper :: "char \<Rightarrow> bool" where
  "isupper c = (65 \<le> (of_char c :: nat) \<and> (of_char c :: nat) \<le> 90)"

definition islower :: "char \<Rightarrow> bool" where
  "islower c = (97 \<le> (of_char c :: nat) \<and> (of_char c :: nat) \<le> 122)"

definition isdigit :: "char \<Rightarrow> bool" where
  "isdigit c = (48 \<le> (of_char c :: nat) \<and> (of_char c :: nat) \<le> 57)"

subsection \<open>\<^verbatim>\<open>validate_domain_str\<close>\<close>

text \<open>\<^verbatim>\<open>s[i]\<close> for an index up to \<^verbatim>\<open>strlen(s)\<close>: the byte of the string, or the
  terminating NUL at index \<^verbatim>\<open>strlen(s)\<close>.\<close>

definition c_index :: "string \<Rightarrow> nat \<Rightarrow> char" where
  "c_index s i = (if i < length s then s ! i else NUL)"

text \<open>
  The \<^verbatim>\<open>for\<close> loop of \<^verbatim>\<open>validate_domain_str\<close>: \<open>s\<close> is the whole string, \<open>j\<close> the
  index, \<open>len\<close> the local \<^verbatim>\<open>bool len\<close> (so \<^verbatim>\<open>len++\<close> sets it to true), and the last
  argument the bytes from index \<open>j\<close> on. The case \<^verbatim>\<open>'.'\<close> falls through to the cases
  \<^verbatim>\<open>'_'\<close> and \<^verbatim>\<open>'-'\<close>; after the loop \<^verbatim>\<open>len == 0\<close> rejects.
\<close>

fun validate_loop :: "string \<Rightarrow> nat \<Rightarrow> bool \<Rightarrow> string \<Rightarrow> bool" where
  "validate_loop s j len [] = (if \<not> len then False else True)"
| "validate_loop s j len (c # cs) =
     (if c = CHR ''.'' then
        (if j = 0 then False else validate_loop s (j + 1) True cs)
      else if c = CHR ''_'' \<or> c = CHR ''-'' then validate_loop s (j + 1) True cs
      else if c = CHR ''*'' then
        (if j \<noteq> 0 \<or> c_index s 1 \<noteq> CHR ''.'' then False
         else validate_loop s (j + 1) len cs)
      else if \<not> isupper c \<and> \<not> islower c \<and> \<not> isdigit c then False
      else validate_loop s (j + 1) True cs)"

definition validate_domain_str :: "string \<Rightarrow> bool" where
  "validate_domain_str s = validate_loop s 0 False s"

text \<open>The words of the specification. The character class \<^verbatim>\<open>[A-Za-z0-9._-]\<close>:\<close>

definition name_class :: "char \<Rightarrow> bool" where
  "name_class c =
     (c \<in> set ''ABCDEFGHIJKLMNOPQRSTUVWXYZabcdefghijklmnopqrstuvwxyz0123456789._-'')"

text \<open>The separators are the three characters of the class that are neither letters
  nor digits; the source handles them in one \<^verbatim>\<open>case\<close> group.\<close>

definition separator :: "char \<Rightarrow> bool" where
  "separator c = (c = CHR ''.'' \<or> c = CHR ''_'' \<or> c = CHR ''-'')"

text \<open>A \<^verbatim>\<open>*\<close> is permitted at index 0 of a string that starts with \<^verbatim>\<open>*.\<close>\<close>

definition permitted_star :: "string \<Rightarrow> nat \<Rightarrow> char \<Rightarrow> bool" where
  "permitted_star s i c = (c = CHR ''*'' \<and> i = 0 \<and> take 2 s = ''*.'')"

definition chars_ok :: "string \<Rightarrow> bool" where
  "chars_ok s = list_all (\<lambda>(i, c). name_class c \<or> permitted_star s i c) (enumerate 0 s)"

definition leading_dot :: "string \<Rightarrow> bool" where
  "leading_dot s = (take 1 s = ''.'')"

text \<open>The claim as the specification words it, and as the code has it (the last
  conjunct differs).\<close>

definition spec_domain_ok :: "string \<Rightarrow> bool" where
  "spec_domain_ok s =
     (chars_ok s \<and> \<not> leading_dot s \<and> list_ex (\<lambda>c. \<not> separator c) s)"

definition code_domain_ok :: "string \<Rightarrow> bool" where
  "code_domain_ok s = (chars_ok s \<and> \<not> leading_dot s \<and> s \<noteq> [])"

text \<open>Auxiliary predicates for the loop: the letters and digits, and the condition
  under which one iteration of the loop does not reject.\<close>

definition alnum :: "char \<Rightarrow> bool" where
  "alnum c = (isupper c \<or> islower c \<or> isdigit c)"

definition step_ok :: "string \<Rightarrow> nat \<Rightarrow> char \<Rightarrow> bool" where
  "step_ok s j c =
     ((c = CHR ''.'' \<and> j \<noteq> 0) \<or> c = CHR ''_'' \<or> c = CHR ''-'' \<or>
      (c = CHR ''*'' \<and> j = 0 \<and> c_index s 1 = CHR ''.'') \<or> alnum c)"

subsection \<open>\<^verbatim>\<open>find_header\<close>\<close>

text \<open>
  \<^verbatim>\<open>find_header(headers, name)\<close> compiles the pattern \<^verbatim>\<open>"^%s: (.*)\r\n"\<close> with
  \<^verbatim>\<open>REG_EXTENDED | REG_NEWLINE\<close> (and without \<^verbatim>\<open>REG_ICASE\<close>) and returns a copy of
  the first group of the match that \<^verbatim>\<open>regexec\<close> finds, or \<^verbatim>\<open>NULL\<close>. The call sites pass
  the literals \<^verbatim>\<open>"Replay-Nonce"\<close>, \<^verbatim>\<open>"Content-Type"\<close> and \<^verbatim>\<open>"Location"\<close>: letters and
  \<^verbatim>\<open>-\<close>, which a POSIX extended regular expression matches literally. The model is
  for such names (\<open>header_name\<close>).

  With \<^verbatim>\<open>REG_NEWLINE\<close>, \<^verbatim>\<open>^\<close> matches at the start of the text and after every
  line feed, and \<^verbatim>\<open>.\<close> matches every byte but the line feed. At one line start the
  pattern therefore matches iff the text goes on with the name, a colon and a space,
  and the rest of the line, up to the next line feed (which must exist), ends with a
  carriage return; the group is that rest without the carriage return.
\<close>

definition header_name :: "string \<Rightarrow> bool" where
  "header_name name = (name \<noteq> [] \<and> list_all (\<lambda>c. alnum c \<or> c = CHR ''-'') name)"

definition strip_prefix :: "string \<Rightarrow> string \<Rightarrow> string option" where
  "strip_prefix p s = (if prefix p s then Some (drop (length p) s) else None)"

definition match_here :: "string \<Rightarrow> string \<Rightarrow> string option" where
  "match_here name hs =
     (case strip_prefix (name @ '': '') hs of
        None \<Rightarrow> None
      | Some rest \<Rightarrow>
          (let line = takeWhile (\<lambda>c. c \<noteq> LF) rest
           in if length line < length rest \<and> line \<noteq> [] \<and> last line = CR
              then Some (butlast line) else None))"

text \<open>\<^verbatim>\<open>regexec\<close> returns the leftmost match: the text is scanned from the left, \<open>bol\<close>
  telling whether the position is a line start.\<close>

fun find_from :: "string \<Rightarrow> bool \<Rightarrow> string \<Rightarrow> string option" where
  "find_from name bol [] = (if bol then match_here name [] else None)"
| "find_from name bol (c # cs) =
     (case (if bol then match_here name (c # cs) else None) of
        Some v \<Rightarrow> Some v
      | None \<Rightarrow> find_from name (c = LF) cs)"

definition find_header :: "string \<Rightarrow> string \<Rightarrow> string option" where
  "find_header headers name = find_from name True headers"

text \<open>A header block made of lines, each ended by carriage return and line feed.\<close>

definition header_block :: "string list \<Rightarrow> string" where
  "header_block ls = concat (map (\<lambda>l. l @ [CR, LF]) ls)"

text \<open>
  The lines of a text that are complete, that is, ended by a line feed, each without
  its line feed; what follows the last line feed is not a line.
\<close>

fun lines_from :: "string \<Rightarrow> string \<Rightarrow> string list" where
  "lines_from cur [] = []"
| "lines_from cur (c # cs) =
     (if c = LF then cur # lines_from [] cs else lines_from (cur @ [c]) cs)"

definition complete_lines :: "string \<Rightarrow> string list" where
  "complete_lines hs = lines_from [] hs"

text \<open>A line that gives the header \<open>name\<close>: it starts with the name, a colon and a
  space, and it ends with a carriage return (before its line feed).\<close>

definition header_line :: "string \<Rightarrow> string \<Rightarrow> bool" where
  "header_line name l = (prefix (name @ '': '') l \<and> suffix [CR] l)"

text \<open>\<^verbatim>\<open>tolower\<close> in the "C" locale, and the lookup as the specification words it:
  the first line whose name equals the wanted one up to the case of letters.\<close>

definition tolower :: "char \<Rightarrow> char" where
  "tolower c = (if isupper c then char_of (of_char c + (32 :: nat)) else c)"

definition spec_find_header :: "string list \<Rightarrow> string \<Rightarrow> string option" where
  "spec_find_header ls name =
     (case find (\<lambda>l. prefix (map tolower (name @ '': ''))
                        (map tolower (take (length name + 2) l))) ls of
        None \<Rightarrow> None
      | Some l \<Rightarrow> Some (drop (length name + 2) l))"

subsection \<open>Data of the driver\<close>

text \<open>The JSON values of \<^verbatim>\<open>json.h\<close>, with the type tags the driver tests
  (\<^verbatim>\<open>JSON_OBJECT\<close>, \<^verbatim>\<open>JSON_ARRAY\<close>, \<^verbatim>\<open>JSON_STRING\<close>).\<close>

datatype json =
    JSON_OBJECT "(string \<times> json) list"
  | JSON_ARRAY "json list"
  | JSON_STRING string
  | JSON_PRIMITIVE string

text \<open>A loaded private key (\<^verbatim>\<open>privkey_t\<close>), opaque to the driver.\<close>

datatype privkey = Privkey string

text \<open>The result of \<^verbatim>\<open>curl_get\<close> and \<^verbatim>\<open>curl_post\<close> (\<^verbatim>\<open>curldata_t\<close>): the status
  code, the raw header block and the body.\<close>

datatype curldata = Curldata (curl_code: int) (curl_headers: string) (curl_body: string)

text \<open>The call that builds the protected header of a JWS:
  \<^verbatim>\<open>jws_protected_kid(nonce, url, kid)\<close> or \<^verbatim>\<open>jws_protected_jwk(nonce, url, key)\<close>.\<close>

datatype protected =
    Protected_kid string string string
  | Protected_jwk string string "privkey option"

text \<open>How the child process of the hook ended: \<^verbatim>\<open>fork\<close> failed, the child exited
  with a status (\<^verbatim>\<open>WIFEXITED\<close>), or it ended otherwise (a signal; this is also how a
  failed \<^verbatim>\<open>execl\<close> ends, through \<^verbatim>\<open>abort\<close>).\<close>

datatype wstatus = Fork_failed | Exited nat | Not_exited

text \<open>
  The calls the driver makes to the outside. \<open>Curl_post\<close> records, next to the URL and
  the JWS that are sent, the call that built the protected header and the payload.
  \<open>Ask_terms\<close> and \<open>Ask_challenge\<close> are the two interactive prompts (a message at level
  0 followed by \<^verbatim>\<open>scanf(" %c", &c)\<close>). \<open>Access\<close> carries the path and the mode as it
  is written in the source, \<open>Mkdir\<close> the path and the mode bits.
\<close>

datatype event =
    Curl_get string
  | Curl_post string protected string string
  | Hook_run string string string string string string
  | Ask_terms string
  | Ask_challenge string string string string
  | Sleep nat
  | Access string string
  | Mkdir string nat
  | Stat string
  | Key_load bool string
  | Cert_valid string "string list" int
  | Cert_save "string option" "string option"
  | Cert_der string

text \<open>
  The environment answers each call from the history of all calls so far, the call
  itself being the last element. Nothing is assumed about the answers.
\<close>

record world =
  w_crypto_init :: bool
  w_curl_global_init :: bool
  w_curl :: "event list \<Rightarrow> curldata option"
  w_child :: "event list \<Rightarrow> wstatus"
  w_scanf :: "event list \<Rightarrow> char option"
  w_access :: "event list \<Rightarrow> bool"
  w_mkdir :: "event list \<Rightarrow> bool"
  w_stat :: "event list \<Rightarrow> bool option"
  w_key_load :: "event list \<Rightarrow> privkey option"
  w_cert_valid :: "event list \<Rightarrow> bool"
  w_cert_save :: "event list \<Rightarrow> bool"
  w_cert_der :: "event list \<Rightarrow> string option"

text \<open>
  The functions of \<^verbatim>\<open>json.h\<close>, \<^verbatim>\<open>crypto.h\<close> and the C library that the driver
  calls and whose code is not in \<^verbatim>\<open>uacme.c\<close>. They are parameters: every theorem
  holds for all of them. A result of type \<open>option\<close> is a pointer that may be
  \<^verbatim>\<open>NULL\<close>. \<open>strtol\<close> returns the number and the rest of the text (\<^verbatim>\<open>endptr\<close>).
\<close>

record ext =
  json_parse :: "string \<Rightarrow> json option"
  json_find :: "json option \<Rightarrow> string \<Rightarrow> json option"
  json_find_string :: "json option \<Rightarrow> string \<Rightarrow> string option"
  json_compare_string :: "json option \<Rightarrow> string \<Rightarrow> string \<Rightarrow> int"
  jws_protected_jwk :: "string \<Rightarrow> string \<Rightarrow> privkey option \<Rightarrow> string option"
  jws_protected_kid :: "string \<Rightarrow> string \<Rightarrow> string \<Rightarrow> string option"
  jws_encode :: "string \<Rightarrow> string \<Rightarrow> privkey option \<Rightarrow> string option"
  jws_thumbprint :: "privkey option \<Rightarrow> string option"
  sha256_base64url :: "string \<Rightarrow> string option"
  csr_gen :: "string list \<Rightarrow> privkey option \<Rightarrow> string option"
  strtol :: "string \<Rightarrow> int \<times> string"

text \<open>
  \<^verbatim>\<open>acme_t\<close>, field by field (the field \<^verbatim>\<open>account\<close> is \<open>account_obj\<close> here, since
  the update of a record field \<open>account\<close> would have the name of the function
  \<^verbatim>\<open>account_update\<close>), and the history of calls (\<open>trace\<close>) with the lines
  written by the \<^verbatim>\<open>warnx\<close> calls of \<^verbatim>\<open>account_new\<close> (\<open>warnings\<close>). The other
  diagnostics (\<^verbatim>\<open>msg\<close>, \<^verbatim>\<open>warnx\<close>, \<^verbatim>\<open>json_dump\<close>) only write to the standard error
  stream and are left out, and so are failures of memory allocation
  (\<^verbatim>\<open>asprintf\<close>, \<^verbatim>\<open>strdup\<close>).
\<close>

record acme =
  key :: "privkey option"
  dkey :: "privkey option"
  json :: "json option"
  account_obj :: "json option"
  dir :: "json option"
  order :: "json option"
  nonce :: "string option"
  kid :: "string option"
  headers :: "string option"
  body :: "string option"
  type :: "string option"
  directory :: string
  hook :: "string option"
  email :: "string option"
  domain :: "string option"
  names :: "string list"
  confdir :: string
  keydir :: "string option"
  dkeydir :: "string option"
  certdir :: "string option"
  trace :: "event list"
  warnings :: "string list"

subsection \<open>\<^verbatim>\<open>acme_get\<close> and \<^verbatim>\<open>acme_post\<close>\<close>

text \<open>Appending a call to the history.\<close>

definition call :: "event \<Rightarrow> acme \<Rightarrow> acme" where
  "call e a = a\<lparr>trace := trace a @ [e]\<rparr>"

text \<open>The first lines of both functions free the last response.\<close>

definition clear_response :: "acme \<Rightarrow> acme" where
  "clear_response a = a\<lparr>json := None, headers := None, body := None, type := None\<rparr>"

text \<open>Their last lines: \<^verbatim>\<open>if (!a->headers) a->headers = strdup("");\<close> and the same
  for \<^verbatim>\<open>body\<close> and \<^verbatim>\<open>type\<close>.\<close>

definition or_empty :: "string option \<Rightarrow> string option" where
  "or_empty s = (case s of None \<Rightarrow> Some [] | Some v \<Rightarrow> Some v)"

definition fill_response :: "acme \<Rightarrow> acme" where
  "fill_response a =
     a\<lparr>headers := or_empty (headers a), body := or_empty (body a), type := or_empty (type a)\<rparr>"

text \<open>The lines after a successful \<^verbatim>\<open>curl_get\<close> or \<^verbatim>\<open>curl_post\<close>, the same in both
  functions: the nonce is replaced by the result of the header lookup, whatever it is.\<close>

definition store_response :: "ext \<Rightarrow> curldata \<Rightarrow> acme \<Rightarrow> acme" where
  "store_response X c a =
     (let ty = find_header (curl_headers c) ''Content-Type''
      in a\<lparr>nonce := find_header (curl_headers c) ''Replay-Nonce'',
            type := ty,
            json := (case ty of
                       None \<Rightarrow> json a
                     | Some t \<Rightarrow> if sublist ''json'' t then json_parse X (curl_body c)
                                else json a),
            headers := Some (curl_headers c),
            body := Some (curl_body c)\<rparr>)"

definition acme_get :: "ext \<Rightarrow> world \<Rightarrow> string option \<Rightarrow> acme \<Rightarrow> int \<times> acme" where
  "acme_get X W url a0 =
     (let a = clear_response a0
      in case url of
           None \<Rightarrow> (0, fill_response a)
         | Some u \<Rightarrow>
             (let a = call (Curl_get u) a
              in case w_curl W (trace a) of
                   None \<Rightarrow> (0, fill_response a)
                 | Some c \<Rightarrow> (curl_code c, fill_response (store_response X c a))))"

text \<open>\<^verbatim>\<open>(a->kid && *a->kid)\<close>\<close>

definition kid_known :: "acme \<Rightarrow> bool" where
  "kid_known a = (case kid a of None \<Rightarrow> False | Some k \<Rightarrow> k \<noteq> [])"

definition protected_call :: "string \<Rightarrow> string \<Rightarrow> acme \<Rightarrow> protected" where
  "protected_call n u a =
     (case kid a of
        None \<Rightarrow> Protected_jwk n u (key a)
      | Some k \<Rightarrow> if k \<noteq> [] then Protected_kid n u k else Protected_jwk n u (key a))"

definition run_protected :: "ext \<Rightarrow> protected \<Rightarrow> string option" where
  "run_protected X p =
     (case p of
        Protected_kid n u k \<Rightarrow> jws_protected_kid X n u k
      | Protected_jwk n u pk \<Rightarrow> jws_protected_jwk X n u pk)"

text \<open>\<open>payload\<close> is the text that \<^verbatim>\<open>vasprintf\<close> makes of the format and its
  arguments.\<close>

definition acme_post ::
  "ext \<Rightarrow> world \<Rightarrow> string option \<Rightarrow> string \<Rightarrow> acme \<Rightarrow> int \<times> acme" where
  "acme_post X W url payload a0 =
     (let a = clear_response a0
      in case nonce a of
           None \<Rightarrow> (0, fill_response a)
         | Some n \<Rightarrow>
        (case url of
           None \<Rightarrow> (0, fill_response a)
         | Some u \<Rightarrow>
        (let p = protected_call n u a
         in case run_protected X p of
           None \<Rightarrow> (0, fill_response a)
         | Some prot \<Rightarrow>
        (case jws_encode X prot payload (key a) of
           None \<Rightarrow> (0, fill_response a)
         | Some jws \<Rightarrow>
             (let a = call (Curl_post u p payload jws) a
              in case w_curl W (trace a) of
                   None \<Rightarrow> (0, fill_response a)
                 | Some c \<Rightarrow> (curl_code c, fill_response (store_response X c a)))))))"

subsection \<open>\<^verbatim>\<open>hook_run\<close>\<close>

text \<open>\<^verbatim>\<open>execl(prog, prog, method, type, ident, token, auth, NULL)\<close> in the child; the
  parent returns the exit status (\<^verbatim>\<open>WEXITSTATUS\<close>, eight bits) if the child exited
  and \<^verbatim>\<open>-1\<close> otherwise.\<close>

definition wait_result :: "wstatus \<Rightarrow> int" where
  "wait_result w =
     (case w of
        Fork_failed \<Rightarrow> - 1
      | Exited n \<Rightarrow> int (n mod 256)
      | Not_exited \<Rightarrow> - 1)"

definition hook_run ::
  "world \<Rightarrow> string \<Rightarrow> string \<Rightarrow> string \<Rightarrow> string \<Rightarrow> string \<Rightarrow> string \<Rightarrow> acme \<Rightarrow> int \<times> acme" where
  "hook_run W prog method ty ident token auth a0 =
     (let a = call (Hook_run prog method ty ident token auth) a0
      in (wait_result (w_child W (trace a)), a))"

subsection \<open>Small helpers of the C library\<close>

text \<open>\<^verbatim>\<open>strcasecmp(s, t) == 0\<close>\<close>

definition strcaseeq :: "string \<Rightarrow> string \<Rightarrow> bool" where
  "strcaseeq s t = (map tolower s = map tolower t)"

text \<open>\<^verbatim>\<open>a->headers\<close> where it is read: it is never \<^verbatim>\<open>NULL\<close> after \<^verbatim>\<open>acme_get\<close> or
  \<^verbatim>\<open>acme_post\<close>.\<close>

definition the_headers :: "acme \<Rightarrow> string" where
  "the_headers a = (case headers a of None \<Rightarrow> [] | Some h \<Rightarrow> h)"

text \<open>\<^verbatim>\<open>scanf(" %c", &c) != 1 || tolower(c) != 'y'\<close> is false.\<close>

definition said_yes :: "char option \<Rightarrow> bool" where
  "said_yes r = (case r of None \<Rightarrow> False | Some c \<Rightarrow> tolower c = CHR ''y'')"

text \<open>\<^verbatim>\<open>p && strlen(p) > 0\<close>\<close>

definition nonempty :: "string option \<Rightarrow> bool" where
  "nonempty p = (case p of None \<Rightarrow> False | Some s \<Rightarrow> s \<noteq> [])"

text \<open>\<^verbatim>\<open>%s\<close> of a string that is present.\<close>

definition str :: "string option \<Rightarrow> string" where
  "str p = (case p of None \<Rightarrow> ''(null)'' | Some s \<Rightarrow> s)"

text \<open>\<^verbatim>\<open>%d\<close>\<close>

fun decimal :: "nat \<Rightarrow> string" where
  "decimal n =
     (if n < 10 then [char_of (48 + n)]
      else decimal (n div 10) @ [char_of (48 + n mod 10)])"

definition printf_d :: "int \<Rightarrow> string" where
  "printf_d i = (if i < 0 then ''-'' @ decimal (nat (- i)) else decimal (nat i))"

definition warnx :: "string \<Rightarrow> acme \<Rightarrow> acme" where
  "warnx m a = a\<lparr>warnings := warnings a @ [m]\<rparr>"

subsection \<open>\<^verbatim>\<open>acme_error\<close>, \<^verbatim>\<open>acme_bootstrap\<close>\<close>

definition acme_error :: "ext \<Rightarrow> acme \<Rightarrow> bool" where
  "acme_error X a =
     (case json a of
        None \<Rightarrow> False
      | Some j \<Rightarrow>
          if (case type a of None \<Rightarrow> False
              | Some t \<Rightarrow> strcaseeq t ''application/problem+json'') then True
          else (case json_find X (Some j) ''error'' of
                  Some (JSON_OBJECT ms) \<Rightarrow> True
                | _ \<Rightarrow> False))"

definition acme_bootstrap :: "ext \<Rightarrow> world \<Rightarrow> acme \<Rightarrow> bool \<times> acme" where
  "acme_bootstrap X W a0 =
     (case acme_get X W (Some (directory a0)) a0 of (r, a) \<Rightarrow>
        if r \<noteq> 200 then (False, a)
        else if acme_error X a then (False, a)
        else
          (let a = a\<lparr>dir := json a, json := None\<rparr>
           in case json_find_string X (dir a) ''newNonce'' of
                None \<Rightarrow> (False, a)
              | Some url \<Rightarrow>
                  (case acme_get X W (Some url) a of (r, a) \<Rightarrow>
                     if r \<noteq> 204 then (False, a)
                     else if acme_error X a then (False, a)
                     else (True, a))))"

subsection \<open>The account\<close>

text \<open>The test of \<^verbatim>\<open>case 400\<close> in \<^verbatim>\<open>account_new\<close> and \<^verbatim>\<open>account_retrieve\<close>.\<close>

definition account_does_not_exist :: "ext \<Rightarrow> acme \<Rightarrow> bool" where
  "account_does_not_exist X a =
     (json a \<noteq> None \<and>
      (case type a of None \<Rightarrow> False | Some t \<Rightarrow> strcaseeq t ''application/problem+json'') \<and>
      json_compare_string X (json a) ''type''
        ''urn:ietf:params:acme:error:accountDoesNotExist'' = 0)"

text \<open>The prompt for the terms of service: agreed without asking if there are no
  terms or \<^verbatim>\<open>-y\<close> was given.\<close>

definition accept_terms :: "world \<Rightarrow> string option \<Rightarrow> bool \<Rightarrow> acme \<Rightarrow> bool \<times> acme" where
  "accept_terms W terms yes a0 =
     (case terms of
        None \<Rightarrow> (True, a0)
      | Some t \<Rightarrow>
          if yes then (True, a0)
          else (let a = call (Ask_terms t) a0
                in if said_yes (w_scanf W (trace a)) then (True, a)
                   else (False, warnx ''terms not agreed to, aborted'' a)))"

text \<open>The second request of \<^verbatim>\<open>account_new\<close> and what follows it (the body of the
  \<^verbatim>\<open>if\<close> in \<^verbatim>\<open>case 400\<close>); the status 201 apart, control falls through to
  \<^verbatim>\<open>default\<close>.\<close>

definition account_create :: "ext \<Rightarrow> world \<Rightarrow> string \<Rightarrow> acme \<Rightarrow> bool \<times> acme" where
  \<open>account_create X W url a0 =
     (case (if nonempty (email a0)
            then acme_post X W (Some url)
                   (''{"termsOfServiceAgreed":true,"contact": ["mailto:'' @ str (email a0) @ ''"]}'') a0
            else acme_post X W (Some url) ''{"termsOfServiceAgreed":true}'' a0) of (r, a) \<Rightarrow>
        if r = 201 then
          (if acme_error X a then (False, a)
           else if json_compare_string X (json a) ''status'' ''valid'' \<noteq> 0 then
             (False, warnx (''account created but status is not valid ('' @
                (case json_find_string X (json a) ''status'' of
                   None \<Rightarrow> ''unknown'' | Some s \<Rightarrow> s) @ '')'') a)
           else
             (let a = a\<lparr>kid := find_header (the_headers a) ''Location''\<rparr>
              in case kid a of
                   None \<Rightarrow> (False, warnx ''account created but location not found'' a)
                 | Some k \<Rightarrow> (True, a)))
        else (False, warnx (''failed to create account at '' @ url) a))\<close>

definition account_new :: "ext \<Rightarrow> world \<Rightarrow> bool \<Rightarrow> acme \<Rightarrow> bool \<times> acme" where
  \<open>account_new X W yes a0 =
     (case json_find_string X (dir a0) ''newAccount'' of
        None \<Rightarrow> (False, warnx ''failed to find newAccount URL in directory'' a0)
      | Some url \<Rightarrow>
          (case acme_post X W (Some url) ''{"onlyReturnExisting":true}'' a0 of (r, a) \<Rightarrow>
             if r = 200 then
               (let a = a\<lparr>kid := find_header (the_headers a) ''Location''\<rparr>
                in case kid a of
                     None \<Rightarrow> (False, warnx ''account exists but location not found'' a)
                   | Some k \<Rightarrow> (False, warnx (''Account already exists at '' @ k) a))
             else if r = 400 \<and> account_does_not_exist X a then
               (let meta = json_find X (dir a) ''meta'';
                    terms = json_find_string X meta ''termsOfService''
                in case accept_terms W terms yes a of
                     (False, a) \<Rightarrow> (False, a)
                   | (True, a) \<Rightarrow> account_create X W url a)
             else (False, warnx (''failed to create account at '' @ url) a)))\<close>

definition account_retrieve :: "ext \<Rightarrow> world \<Rightarrow> acme \<Rightarrow> bool \<times> acme" where
  \<open>account_retrieve X W a0 =
     (case json_find_string X (dir a0) ''newAccount'' of
        None \<Rightarrow> (False, a0)
      | Some url \<Rightarrow>
          (case acme_post X W (Some url) ''{"onlyReturnExisting":true}'' a0 of (r, a) \<Rightarrow>
             if r = 200 then
               (if acme_error X a then (False, a)
                else if json_compare_string X (json a) ''status'' ''valid'' \<noteq> 0 then (False, a)
                else
                  (let a = a\<lparr>kid := find_header (the_headers a) ''Location''\<rparr>
                   in case kid a of
                        None \<Rightarrow> (False, a)
                      | Some k \<Rightarrow> (True, a\<lparr>account_obj := json a, json := None\<rparr>)))
             else (False, a)))\<close>

text \<open>The loop of \<^verbatim>\<open>account_update\<close> over the contacts of the account: \<open>None\<close> when
  an element is not a string that starts with \<^verbatim>\<open>mailto:\<close> (in any case of letters),
  else the flag \<^verbatim>\<open>email_update\<close>.\<close>

fun contacts_loop :: "string \<Rightarrow> json list \<Rightarrow> bool \<Rightarrow> bool option" where
  "contacts_loop mail [] upd = Some upd"
| "contacts_loop mail (v # vs) upd =
     (case v of
        JSON_STRING s \<Rightarrow>
          if strcaseeq (take 7 s) ''mailto:''
          then contacts_loop mail vs (upd \<or> \<not> strcaseeq (drop 7 s) mail)
          else None
      | _ \<Rightarrow> None)"

definition need_email_update :: "ext \<Rightarrow> acme \<Rightarrow> bool option" where
  "need_email_update X a =
     (case json_find X (account_obj a) ''contact'' of
        None \<Rightarrow> Some (nonempty (email a))
      | Some (JSON_ARRAY vs) \<Rightarrow>
          if nonempty (email a) then
            (if vs = [] then Some True else contacts_loop (str (email a)) vs False)
          else Some (vs \<noteq> [])
      | Some other \<Rightarrow> None)"

definition account_update :: "ext \<Rightarrow> world \<Rightarrow> acme \<Rightarrow> bool \<times> acme" where
  \<open>account_update X W a0 =
     (case need_email_update X a0 of
        None \<Rightarrow> (False, a0)
      | Some False \<Rightarrow> (True, a0)
      | Some True \<Rightarrow>
          (case (if nonempty (email a0)
                 then acme_post X W (kid a0)
                        (''{"contact": ["mailto:'' @ str (email a0) @ ''"]}'') a0
                 else acme_post X W (kid a0) ''{"contact": []}'' a0) of (r, a) \<Rightarrow>
             if r \<noteq> 200 then (False, a)
             else if acme_error X a then (False, a)
             else (True, a)))\<close>

definition account_deactivate :: "ext \<Rightarrow> world \<Rightarrow> acme \<Rightarrow> bool \<times> acme" where
  \<open>account_deactivate X W a0 =
     (case acme_post X W (kid a0) ''{"status": "deactivated"}'' a0 of (r, a) \<Rightarrow>
        if r \<noteq> 200 then (False, a)
        else if acme_error X a then (False, a)
        else (True, a))\<close>

subsection \<open>\<^verbatim>\<open>authorize\<close>\<close>

text \<open>
  The loops that poll the server (\<^verbatim>\<open>while (!chlg_done)\<close>, \<^verbatim>\<open>while (1)\<close>) end only
  when the server answers with a final status. They are modelled with fuel: a bound
  on the number of rounds of each loop. A result \<open>None\<close> means that a loop was still
  polling when its fuel was used up.
\<close>

definition sleep :: "nat \<Rightarrow> acme \<Rightarrow> acme" where
  "sleep n a = call (Sleep n) a"

text \<open>The loop \<^verbatim>\<open>while (!chlg_done)\<close>; the result is \<^verbatim>\<open>chlg_done\<close> after it.\<close>

fun poll_challenge :: "ext \<Rightarrow> world \<Rightarrow> nat \<Rightarrow> string \<Rightarrow> acme \<Rightarrow> bool option \<times> acme" where
  "poll_challenge X W 0 url a = (None, a)"
| "poll_challenge X W (Suc fuel) url a0 =
     (case acme_post X W (Some url) [] a0 of (r, a) \<Rightarrow>
        if r \<noteq> 200 then (Some False, a)
        else
          (let status = json_find_string X (json a) ''status''
           in if status = Some ''valid'' then (Some True, a)
              else if status = None \<or>
                      (status \<noteq> Some ''processing'' \<and> status \<noteq> Some ''pending'')
              then (Some False, a)
              else poll_challenge X W fuel url (sleep 5 a)))"

text \<open>The key authorization of a challenge (\<^verbatim>\<open>key_auth\<close>): the result of
  \<^verbatim>\<open>sha256_base64url("%s.%s", token, thumbprint)\<close> or of
  \<^verbatim>\<open>asprintf(&key_auth, "%s.%s", token, thumbprint)\<close>.\<close>

definition key_authorization :: "ext \<Rightarrow> string \<Rightarrow> string \<Rightarrow> string \<Rightarrow> string option" where
  "key_authorization X ty token thumbprint =
     (if ty = ''dns-01'' then sha256_base64url X (token @ ''.'' @ thumbprint)
      else Some (token @ ''.'' @ thumbprint))"

text \<open>How the operator answers a challenge: the hook with method \<^verbatim>\<open>begin\<close>, or the
  prompt when no hook is configured.\<close>

datatype decision = Accept | Decline | Fatal

definition present_challenge ::
  "world \<Rightarrow> string \<Rightarrow> string \<Rightarrow> string \<Rightarrow> string \<Rightarrow> acme \<Rightarrow> decision \<times> acme" where
  "present_challenge W ty ident_value token key_auth a0 =
     (if nonempty (hook a0) then
        (case hook_run W (str (hook a0)) ''begin'' ty ident_value token key_auth a0 of (r, a) \<Rightarrow>
           if r < 0 then (Fatal, a)
           else if r > 0 then (Decline, a)
           else (Accept, a))
      else
        (let a = call (Ask_challenge ty ident_value token key_auth) a0
         in if said_yes (w_scanf W (trace a)) then (Accept, a) else (Decline, a)))"

text \<open>After the operator accepted: the request that starts the challenge, the polling,
  and the second run of the hook. The result is \<^verbatim>\<open>chlg_done\<close>.\<close>

definition run_challenge ::
  "ext \<Rightarrow> world \<Rightarrow> nat \<Rightarrow> string \<Rightarrow> string \<Rightarrow> string \<Rightarrow> string \<Rightarrow> string \<Rightarrow> acme
     \<Rightarrow> bool option \<times> acme" where
  "run_challenge X W fuel url ty ident_value token key_auth a0 =
     (case (case acme_post X W (Some url) ''{}'' a0 of (r, a) \<Rightarrow>
              if r \<noteq> 200 then (Some False, a)
              else poll_challenge X W fuel url a) of
        (None, a) \<Rightarrow> (None, a)
      | (Some chlg_done, a) \<Rightarrow>
          (if nonempty (hook a) then
             (case hook_run W (str (hook a)) (if chlg_done then ''done'' else ''failed'')
                     ty ident_value token key_auth a of (r, a) \<Rightarrow> (Some chlg_done, a))
           else (Some chlg_done, a)))"

text \<open>One round of the loop over the challenges of an authorization: \<open>Next\<close> goes on
  with the next challenge (\<^verbatim>\<open>chlg_done\<close> still false), \<open>Done\<close> leaves the loop with
  \<^verbatim>\<open>chlg_done\<close> true, \<open>Out\<close> is \<^verbatim>\<open>goto out\<close>, and \<open>Polling\<close> is a loop out of fuel.\<close>

datatype flow = Next | Done | Out | Polling

definition challenge ::
  "ext \<Rightarrow> world \<Rightarrow> nat \<Rightarrow> string \<Rightarrow> string \<Rightarrow> json \<Rightarrow> acme \<Rightarrow> flow \<times> acme" where
  "challenge X W fuel thumbprint ident_value ch a0 =
     (if json_compare_string X (Some ch) ''status'' ''pending'' \<noteq> 0 then (Next, a0)
      else
        (case (json_find_string X (Some ch) ''type'',
               json_find_string X (Some ch) ''url'',
               json_find_string X (Some ch) ''token'') of
           (Some ty, Some url, Some token) \<Rightarrow>
             (case key_authorization X ty token thumbprint of
                None \<Rightarrow> (Out, a0)
              | Some key_auth \<Rightarrow>
                  (case present_challenge W ty ident_value token key_auth a0 of
                     (Fatal, a) \<Rightarrow> (Out, a)
                   | (Decline, a) \<Rightarrow> (Next, a)
                   | (Accept, a) \<Rightarrow>
                       (case run_challenge X W fuel url ty ident_value token key_auth a of
                          (None, a) \<Rightarrow> (Polling, a)
                        | (Some chlg_done, a) \<Rightarrow>
                            if \<not> chlg_done then (Out, a) else (Done, a))))
         | _ \<Rightarrow> (Out, a0)))"

fun challenges ::
  "ext \<Rightarrow> world \<Rightarrow> nat \<Rightarrow> string \<Rightarrow> string \<Rightarrow> json list \<Rightarrow> acme \<Rightarrow> flow \<times> acme" where
  "challenges X W fuel thumbprint ident_value [] a = (Next, a)"
| "challenges X W fuel thumbprint ident_value (ch # chs) a0 =
     (case challenge X W fuel thumbprint ident_value ch a0 of
        (Next, a) \<Rightarrow> challenges X W fuel thumbprint ident_value chs a
      | (f, a) \<Rightarrow> (f, a))"

text \<open>One round of the loop over the authorizations of the order: \<open>Next\<close> goes on with
  the next authorization.\<close>

definition authorization ::
  "ext \<Rightarrow> world \<Rightarrow> nat \<Rightarrow> string \<Rightarrow> json \<Rightarrow> acme \<Rightarrow> flow \<times> acme" where
  "authorization X W fuel thumbprint au a0 =
     (case au of
        JSON_STRING u \<Rightarrow>
          (case acme_post X W (Some u) [] a0 of (r, a) \<Rightarrow>
             if r \<noteq> 200 then (Out, a)
             else
               (let status = json_find_string X (json a) ''status''
                in if status = Some ''valid'' then (Next, a)
                   else if status = None \<or> status \<noteq> Some ''pending'' then (Out, a)
                   else
                     (let ident = json_find X (json a) ''identifier''
                      in if json_compare_string X ident ''type'' ''dns'' \<noteq> 0 then (Out, a)
                         else
                           (case json_find_string X ident ''value'' of
                              None \<Rightarrow> (Out, a)
                            | Some ident_value \<Rightarrow>
                                if ident_value = [] then (Out, a)
                                else
                                  (case json_find X (json a) ''challenges'' of
                                     Some (JSON_ARRAY chlgs) \<Rightarrow>
                                       (case challenges X W fuel thumbprint ident_value chlgs
                                               (a\<lparr>json := None\<rparr>) of
                                          (Done, a) \<Rightarrow> (Next, a)
                                        | (Next, a) \<Rightarrow> (Out, a)
                                        | (f, a) \<Rightarrow> (f, a))
                                   | _ \<Rightarrow> (Out, a))))))
      | _ \<Rightarrow> (Out, a0))"

fun authorizations ::
  "ext \<Rightarrow> world \<Rightarrow> nat \<Rightarrow> string \<Rightarrow> json list \<Rightarrow> acme \<Rightarrow> bool option \<times> acme" where
  "authorizations X W fuel thumbprint [] a = (Some True, a)"
| "authorizations X W fuel thumbprint (au # aus) a0 =
     (case authorization X W fuel thumbprint au a0 of
        (Next, a) \<Rightarrow> authorizations X W fuel thumbprint aus a
      | (Polling, a) \<Rightarrow> (None, a)
      | (f, a) \<Rightarrow> (Some False, a))"

definition authorize :: "ext \<Rightarrow> world \<Rightarrow> nat \<Rightarrow> acme \<Rightarrow> bool option \<times> acme" where
  "authorize X W fuel a =
     (case json_find X (order a) ''authorizations'' of
        Some (JSON_ARRAY auths) \<Rightarrow>
          (case jws_thumbprint X (key a) of
             None \<Rightarrow> (Some False, a)
           | Some thumbprint \<Rightarrow> authorizations X W fuel thumbprint auths a)
      | _ \<Rightarrow> (Some False, a))"

subsection \<open>\<^verbatim>\<open>identifiers\<close>, \<^verbatim>\<open>cert_issue\<close>, \<^verbatim>\<open>cert_revoke\<close>\<close>

definition identifiers :: "string list \<Rightarrow> string" where
  \<open>identifiers ns =
     butlast (''{"identifiers":['' @
              concat (map (\<lambda>n. ''{"type":"dns","value":"'' @ n @ ''"},'') ns)) @ '']}''\<close>

text \<open>The first loop \<^verbatim>\<open>while (1)\<close> of \<^verbatim>\<open>cert_issue\<close>: until the order is ready.\<close>

fun poll_ready :: "ext \<Rightarrow> world \<Rightarrow> nat \<Rightarrow> string \<Rightarrow> acme \<Rightarrow> bool option \<times> acme" where
  "poll_ready X W 0 orderurl a = (None, a)"
| "poll_ready X W (Suc fuel) orderurl a0 =
     (case acme_post X W (Some orderurl) [] a0 of (r, a) \<Rightarrow>
        if r \<noteq> 200 then (Some False, a)
        else
          (let status = json_find_string X (json a) ''status''
           in if status = Some ''ready'' then (Some True, a\<lparr>order := json a, json := None\<rparr>)
              else if status = None \<or> status \<noteq> Some ''pending'' then (Some False, a)
              else poll_ready X W fuel orderurl (sleep 5 a)))"

text \<open>The second loop: until the order is valid.\<close>

fun poll_valid :: "ext \<Rightarrow> world \<Rightarrow> nat \<Rightarrow> string \<Rightarrow> acme \<Rightarrow> bool option \<times> acme" where
  "poll_valid X W 0 orderurl a = (None, a)"
| "poll_valid X W (Suc fuel) orderurl a0 =
     (case acme_post X W (Some orderurl) [] a0 of (r, a) \<Rightarrow>
        if r \<noteq> 200 then (Some False, a)
        else
          (let status = json_find_string X (json a) ''status''
           in if status = Some ''valid'' then (Some True, a\<lparr>order := json a, json := None\<rparr>)
              else if status = None \<or> status \<noteq> Some ''processing'' then (Some False, a)
              else poll_valid X W fuel orderurl (sleep 5 a)))"

definition cert_save :: "world \<Rightarrow> string option \<Rightarrow> string option \<Rightarrow> acme \<Rightarrow> bool \<times> acme" where
  "cert_save W b d a0 = (let a = call (Cert_save b d) a0 in (w_cert_save W (trace a), a))"

text \<open>The block \<^verbatim>\<open>if (strcmp(status, "ready") != 0)\<close>.\<close>

definition order_ready :: "ext \<Rightarrow> world \<Rightarrow> nat \<Rightarrow> string \<Rightarrow> acme \<Rightarrow> bool option \<times> acme" where
  "order_ready X W fuel orderurl a0 =
     (case authorize X W fuel a0 of
        (None, a) \<Rightarrow> (None, a)
      | (Some False, a) \<Rightarrow> (Some False, a)
      | (Some True, a) \<Rightarrow> poll_ready X W fuel orderurl a)"

text \<open>The end of \<^verbatim>\<open>cert_issue\<close>, from the lookup of the certificate URL on.\<close>

definition cert_download :: "ext \<Rightarrow> world \<Rightarrow> acme \<Rightarrow> bool \<times> acme" where
  "cert_download X W a0 =
     (case json_find_string X (order a0) ''certificate'' of
        None \<Rightarrow> (False, a0)
      | Some certurl \<Rightarrow>
          (case acme_post X W (Some certurl) [] a0 of (r, a) \<Rightarrow>
             if r \<noteq> 200 then (False, a)
             else if acme_error X a then (False, a)
             else
               (case cert_save W (body a) (certdir a) a of (ok, a) \<Rightarrow>
                  if \<not> ok then (False, a) else (True, a))))"

text \<open>From \<^verbatim>\<open>csr_gen\<close> to the second loop of \<^verbatim>\<open>cert_issue\<close>, and on to the download.\<close>

definition order_finalize :: "ext \<Rightarrow> world \<Rightarrow> nat \<Rightarrow> string \<Rightarrow> acme \<Rightarrow> bool option \<times> acme" where
  \<open>order_finalize X W fuel orderurl a0 =
     (case csr_gen X (names a0) (dkey a0) of
        None \<Rightarrow> (Some False, a0)
      | Some csr \<Rightarrow>
     (case json_find_string X (order a0) ''finalize'' of
        None \<Rightarrow> (Some False, a0)
      | Some finalize \<Rightarrow>
     (case acme_post X W (Some finalize) (''{"csr": "'' @ csr @ ''"}'') a0 of (r, a) \<Rightarrow>
        if r \<noteq> 200 then (Some False, a)
        else if acme_error X a then (Some False, a)
        else
          (case poll_valid X W fuel orderurl a of
             (None, a) \<Rightarrow> (None, a)
           | (Some False, a) \<Rightarrow> (Some False, a)
           | (Some True, a) \<Rightarrow>
               (case cert_download X W a of (ok, a) \<Rightarrow> (Some ok, a))))))\<close>

definition cert_issue :: "ext \<Rightarrow> world \<Rightarrow> nat \<Rightarrow> acme \<Rightarrow> bool option \<times> acme" where
  "cert_issue X W fuel a0 =
     (let ids = identifiers (names a0)
      in case json_find_string X (dir a0) ''newOrder'' of
           None \<Rightarrow> (Some False, a0)
         | Some url \<Rightarrow>
             (case acme_post X W (Some url) ids a0 of (r, a) \<Rightarrow>
                if r \<noteq> 201 then (Some False, a)
                else
                  (let status = json_find_string X (json a) ''status''
                   in if status = None \<or>
                         (status \<noteq> Some ''pending'' \<and> status \<noteq> Some ''ready'')
                      then (Some False, a)
                      else
                        (case find_header (the_headers a) ''Location'' of
                           None \<Rightarrow> (Some False, a)
                         | Some orderurl \<Rightarrow>
                             (let a = a\<lparr>order := json a, json := None\<rparr>
                              in if status \<noteq> Some ''ready'' then
                                   (case order_ready X W fuel orderurl a of
                                      (None, a) \<Rightarrow> (None, a)
                                    | (Some False, a) \<Rightarrow> (Some False, a)
                                    | (Some True, a) \<Rightarrow> order_finalize X W fuel orderurl a)
                                 else order_finalize X W fuel orderurl a)))))"

definition cert_der_base64url :: "world \<Rightarrow> string \<Rightarrow> acme \<Rightarrow> string option \<times> acme" where
  "cert_der_base64url W certfile a0 =
     (let a = call (Cert_der certfile) a0 in (w_cert_der W (trace a), a))"

definition cert_revoke :: "ext \<Rightarrow> world \<Rightarrow> string \<Rightarrow> int \<Rightarrow> acme \<Rightarrow> bool \<times> acme" where
  \<open>cert_revoke X W certfile reason_code a0 =
     (case cert_der_base64url W certfile a0 of
        (None, a) \<Rightarrow> (False, a)
      | (Some crt, a) \<Rightarrow>
          (case json_find_string X (dir a) ''revokeCert'' of
             None \<Rightarrow> (False, a)
           | Some url \<Rightarrow>
               (case acme_post X W (Some url)
                       (''{"certificate":"'' @ crt @ ''","reason":'' @ printf_d reason_code @ ''}'')
                       a of (r, a) \<Rightarrow>
                  if r \<noteq> 200 then (False, a)
                  else if acme_error X a then (False, a)
                  else (True, a))))\<close>

subsection \<open>\<^verbatim>\<open>check_or_mkdir\<close> and \<^verbatim>\<open>main\<close>\<close>

definition access :: "world \<Rightarrow> string \<Rightarrow> string \<Rightarrow> acme \<Rightarrow> bool \<times> acme" where
  "access W path mode a0 = (let a = call (Access path mode) a0 in (w_access W (trace a), a))"

definition mkdir :: "world \<Rightarrow> string \<Rightarrow> nat \<Rightarrow> acme \<Rightarrow> bool \<times> acme" where
  "mkdir W path mode a0 = (let a = call (Mkdir path mode) a0 in (w_mkdir W (trace a), a))"

text \<open>\<^verbatim>\<open>stat\<close>: \<open>None\<close> if it fails, else whether the path is a directory.\<close>

definition stat :: "world \<Rightarrow> string \<Rightarrow> acme \<Rightarrow> bool option \<times> acme" where
  "stat W path a0 = (let a = call (Stat path) a0 in (w_stat W (trace a), a))"

definition check_or_mkdir :: "world \<Rightarrow> bool \<Rightarrow> string \<Rightarrow> nat \<Rightarrow> acme \<Rightarrow> bool \<times> acme" where
  "check_or_mkdir W allow_create d mode a0 =
     (case access W d ''F_OK'' a0 of (found, a) \<Rightarrow>
        (case (if \<not> found then
                 (if \<not> allow_create then (False, a) else mkdir W d mode a)
               else (True, a)) of
           (False, a) \<Rightarrow> (False, a)
         | (True, a) \<Rightarrow>
             (case stat W d a of
                (None, a) \<Rightarrow> (False, a)
              | (Some isdir, a) \<Rightarrow> (isdir, a))))"

definition key_load :: "world \<Rightarrow> bool \<Rightarrow> string \<Rightarrow> acme \<Rightarrow> privkey option \<times> acme" where
  "key_load W allow_create path a0 =
     (let a = call (Key_load allow_create path) a0 in (w_key_load W (trace a), a))"

definition cert_valid :: "world \<Rightarrow> string \<Rightarrow> string list \<Rightarrow> int \<Rightarrow> acme \<Rightarrow> bool \<times> acme" where
  "cert_valid W d ns validity a0 =
     (let a = call (Cert_valid d ns validity) a0 in (w_cert_valid W (trace a), a))"

definition PRODUCTION_URL :: string where
  "PRODUCTION_URL = ''https://acme-v02.api.letsencrypt.org/directory''"

definition STAGING_URL :: string where
  "STAGING_URL = ''https://acme-staging-v02.api.letsencrypt.org/directory''"

definition DEFAULT_CONFDIR :: string where
  "DEFAULT_CONFDIR = ''/etc/ssl/uacme''"

definition EXIT_SUCCESS :: int where "EXIT_SUCCESS = 0"
definition EXIT_FAILURE :: int where "EXIT_FAILURE = 1"

text \<open>The modes \<^verbatim>\<open>S_IRWXU|S_IRGRP|S_IXGRP|S_IROTH|S_IXOTH\<close> (octal 755) and
  \<^verbatim>\<open>S_IRWXU\<close> (octal 700).\<close>

definition mode_755 :: nat where "mode_755 = 493"
definition mode_700 :: nat where "mode_700 = 448"

text \<open>The local variables of \<^verbatim>\<open>main\<close> that the options set.\<close>

record opts =
  opt_never :: bool
  opt_force :: bool
  opt_version :: bool
  opt_yes :: bool
  opt_days :: int

definition opts0 :: opts where
  "opts0 = \<lparr>opt_never = False, opt_force = False, opt_version = False, opt_yes = False,
            opt_days = 30\<rparr>"

text \<open>\<^verbatim>\<open>memset(&a, 0, sizeof(a))\<close> and the two defaults.\<close>

definition acme0 :: acme where
  "acme0 = \<lparr>key = None, dkey = None, json = None, account_obj = None, dir = None, order = None,
            nonce = None, kid = None, headers = None, body = None, type = None,
            directory = PRODUCTION_URL, hook = None, email = None, domain = None,
            names = [], confdir = DEFAULT_CONFDIR, keydir = None, dkeydir = None,
            certdir = None, trace = [], warnings = []\<rparr>"

text \<open>The conversion of the \<^verbatim>\<open>long\<close> that \<^verbatim>\<open>strtol\<close> returns to the \<^verbatim>\<open>int days\<close>
  (32 bits, two's complement).\<close>

definition to_int :: "int \<Rightarrow> int" where
  "to_int v = (v + 2 ^ 31) mod 2 ^ 32 - 2 ^ 31"

text \<open>
  The loop over the options. Its input is what the successive calls of
  \<^verbatim>\<open>getopt_long\<close> return: the option character and \<^verbatim>\<open>optarg\<close>. The first
  component of the result is false for \<^verbatim>\<open>goto out\<close>. The level of the diagnostics
  (\<^verbatim>\<open>-v\<close>) is not modelled.
\<close>

fun options_loop :: "ext \<Rightarrow> (char \<times> string) list \<Rightarrow> opts \<Rightarrow> acme \<Rightarrow> bool \<times> opts \<times> acme" where
  "options_loop X [] f a = (True, f, a)"
| "options_loop X ((c, optarg) # rest) f a =
     (if c = CHR ''a'' then options_loop X rest f (a\<lparr>directory := optarg\<rparr>)
      else if c = CHR ''c'' then options_loop X rest f (a\<lparr>confdir := optarg\<rparr>)
      else if c = CHR ''d'' then
        (case strtol X optarg of (v, endptr) \<Rightarrow>
           if endptr \<noteq> [] \<or> to_int v \<le> 0 then (False, f\<lparr>opt_days := to_int v\<rparr>, a)
           else options_loop X rest (f\<lparr>opt_days := to_int v\<rparr>) a)
      else if c = CHR ''f'' then options_loop X rest (f\<lparr>opt_force := True\<rparr>) a
      else if c = CHR ''h'' then options_loop X rest f (a\<lparr>hook := Some optarg\<rparr>)
      else if c = CHR ''n'' then options_loop X rest (f\<lparr>opt_never := True\<rparr>) a
      else if c = CHR ''v'' then options_loop X rest f a
      else if c = CHR ''s'' then options_loop X rest f (a\<lparr>directory := STAGING_URL\<rparr>)
      else if c = CHR ''V'' then options_loop X rest (f\<lparr>opt_version := True\<rparr>) a
      else if c = CHR ''y'' then options_loop X rest (f\<lparr>opt_yes := True\<rparr>) a
      else (False, f, a))"

text \<open>The arguments of the action (\<^verbatim>\<open>argv\<close> from \<^verbatim>\<open>optind\<close> on, after the action):
  whether they are accepted, and the file to revoke.\<close>

definition main_args ::
  "world \<Rightarrow> string \<Rightarrow> string list \<Rightarrow> acme \<Rightarrow> bool \<times> string option \<times> acme" where
  "main_args W action rest a0 =
     (if action = ''new'' \<or> action = ''update'' then
        (case rest of
           [] \<Rightarrow> (True, None, a0)
         | [e] \<Rightarrow> (True, None, a0\<lparr>email := Some e\<rparr>)
         | e # extra \<Rightarrow> (False, None, a0\<lparr>email := Some e\<rparr>))
      else if action = ''deactivate'' then (rest = [], None, a0)
      else if action = ''issue'' then
        (case rest of
           [] \<Rightarrow> (False, None, a0)
         | n # ns \<Rightarrow>
             (let a = a0\<lparr>names := n # ns\<rparr>
              in if \<not> list_all validate_domain_str (n # ns) then (False, None, a)
                 else (True, None,
                       a\<lparr>domain := Some (if c_index n 0 = CHR ''*'' \<and> c_index n 1 = CHR ''.''
                                          then drop 2 n else n)\<rparr>)))
      else if action = ''revoke'' then
        (case rest of
           [] \<Rightarrow> (False, None, a0)
         | [f] \<Rightarrow> (case access W f ''R_OK'' a0 of (ok, a) \<Rightarrow> (ok, Some f, a))
         | f # extra \<Rightarrow> (False, Some f, a0))
      else (False, None, a0))"

text \<open>From the test of the hook to the load of the account key, in three steps:
  the test \<^verbatim>\<open>if (a.hook && access(a.hook, R_OK | X_OK) < 0)\<close>, the three paths made
  with \<^verbatim>\<open>asprintf\<close>, and the directories and the key of the account.\<close>

definition check_hook :: "world \<Rightarrow> acme \<Rightarrow> bool \<times> acme" where
  "check_hook W a =
     (case hook a of
        None \<Rightarrow> (True, a)
      | Some h \<Rightarrow> access W h ''R_OK | X_OK'' a)"

definition set_dirs :: "acme \<Rightarrow> acme" where
  "set_dirs a0 =
     (let a = a0\<lparr>keydir := Some (confdir a0 @ ''/private'')\<rparr>
      in case domain a of
           None \<Rightarrow> a
         | Some d \<Rightarrow> a\<lparr>dkeydir := Some (confdir a @ ''/private/'' @ d),
                        certdir := Some (confdir a @ ''/'' @ d)\<rparr>)"

definition load_account_key :: "world \<Rightarrow> bool \<Rightarrow> acme \<Rightarrow> bool \<times> acme" where
  "load_account_key W allow_create a0 =
     (case check_or_mkdir W allow_create (confdir a0) mode_755 a0 of
        (False, a) \<Rightarrow> (False, a)
      | (True, a) \<Rightarrow>
          (case check_or_mkdir W allow_create (str (keydir a)) mode_700 a of
             (False, a) \<Rightarrow> (False, a)
           | (True, a) \<Rightarrow>
               (case key_load W allow_create (str (keydir a) @ ''/key.pem'') a of (k, a) \<Rightarrow>
                  (k \<noteq> None, a\<lparr>key := k\<rparr>))))"

definition main_setup :: "world \<Rightarrow> opts \<Rightarrow> string \<Rightarrow> acme \<Rightarrow> bool \<times> acme" where
  "main_setup W f action a0 =
     (case check_hook W a0 of
        (False, a) \<Rightarrow> (False, a)
      | (True, a) \<Rightarrow>
          (let is_new = (action = ''new'')
           in load_account_key W (is_new \<and> \<not> opt_never f) (set_dirs a)))"

text \<open>The result of a chain \<^verbatim>\<open>if (f() && g() && h()) ret = EXIT_SUCCESS;\<close>\<close>

definition exit_code :: "bool \<Rightarrow> int" where
  "exit_code ok = (if ok then EXIT_SUCCESS else EXIT_FAILURE)"

definition retrieve_and ::
  "ext \<Rightarrow> world \<Rightarrow> (acme \<Rightarrow> bool option \<times> acme) \<Rightarrow> acme \<Rightarrow> int option \<times> acme" where
  "retrieve_and X W act a0 =
     (case acme_bootstrap X W a0 of
        (False, a) \<Rightarrow> (Some EXIT_FAILURE, a)
      | (True, a) \<Rightarrow>
          (case account_retrieve X W a of
             (False, a) \<Rightarrow> (Some EXIT_FAILURE, a)
           | (True, a) \<Rightarrow>
               (case act a of
                  (None, a) \<Rightarrow> (None, a)
                | (Some ok, a) \<Rightarrow> (Some (exit_code ok), a))))"

definition total :: "(acme \<Rightarrow> bool \<times> acme) \<Rightarrow> acme \<Rightarrow> bool option \<times> acme" where
  "total act a = (case act a of (ok, a') \<Rightarrow> (Some ok, a'))"

text \<open>The branch of the action \<^verbatim>\<open>issue\<close>.\<close>

definition main_issue :: "ext \<Rightarrow> world \<Rightarrow> nat \<Rightarrow> opts \<Rightarrow> acme \<Rightarrow> int option \<times> acme" where
  "main_issue X W fuel f a0 =
     (case check_or_mkdir W (\<not> opt_never f) (str (dkeydir a0)) mode_700 a0 of
        (False, a) \<Rightarrow> (Some EXIT_FAILURE, a)
      | (True, a) \<Rightarrow>
     (case check_or_mkdir W (\<not> opt_never f) (str (certdir a)) mode_755 a of
        (False, a) \<Rightarrow> (Some EXIT_FAILURE, a)
      | (True, a) \<Rightarrow>
     (case key_load W (\<not> opt_never f) (str (dkeydir a) @ ''/key.pem'') a of
        (None, a) \<Rightarrow> (Some EXIT_FAILURE, a)
      | (Some k, a) \<Rightarrow>
     (case cert_valid W (str (certdir a)) (names a) (opt_days f) (a\<lparr>dkey := Some k\<rparr>) of
        (valid, a) \<Rightarrow>
          if valid \<and> \<not> opt_force f then (Some EXIT_SUCCESS, a)
          else retrieve_and X W (cert_issue X W fuel) a))))"

text \<open>The chain of tests on the action that ends \<^verbatim>\<open>main\<close>.\<close>

definition main_run ::
  "ext \<Rightarrow> world \<Rightarrow> nat \<Rightarrow> opts \<Rightarrow> string \<Rightarrow> string option \<Rightarrow> acme \<Rightarrow> int option \<times> acme" where
  "main_run X W fuel f action revokefile a0 =
     (if action = ''new'' then
        (case acme_bootstrap X W a0 of
           (False, a) \<Rightarrow> (Some EXIT_FAILURE, a)
         | (True, a) \<Rightarrow>
             (case account_new X W (opt_yes f) a of (ok, a) \<Rightarrow> (Some (exit_code ok), a)))
      else if action = ''update'' then retrieve_and X W (total (account_update X W)) a0
      else if action = ''deactivate'' then retrieve_and X W (total (account_deactivate X W)) a0
      else if action = ''issue'' then main_issue X W fuel f a0
      else if action = ''revoke'' then
        retrieve_and X W (total (cert_revoke X W (str revokefile) 0)) a0
      else (Some EXIT_FAILURE, a0))"

text \<open>
  \<^verbatim>\<open>main\<close>. The command line is given as \<^verbatim>\<open>getopt_long\<close> splits it: the options
  with their arguments, and the words that are left (\<^verbatim>\<open>argv\<close> from \<^verbatim>\<open>optind\<close> on).
  The result is the exit code (\<open>None\<close> if a polling loop ran out of fuel) and the
  state at the label \<^verbatim>\<open>out\<close>.
\<close>

definition main ::
  "ext \<Rightarrow> world \<Rightarrow> nat \<Rightarrow> (char \<times> string) list \<Rightarrow> string list \<Rightarrow> int option \<times> acme" where
  "main X W fuel optv args =
     (if optv = [] \<and> args = [] then (Some EXIT_FAILURE, acme0)
      else if \<not> w_crypto_init W then (Some EXIT_FAILURE, acme0)
      else if \<not> w_curl_global_init W then (Some EXIT_FAILURE, acme0)
      else
        (case options_loop X optv opts0 acme0 of
           (False, f, a) \<Rightarrow> (Some EXIT_FAILURE, a)
         | (True, f, a) \<Rightarrow>
             if opt_version f then (Some EXIT_FAILURE, a)
             else
               (case args of
                  [] \<Rightarrow> (Some EXIT_FAILURE, a)
                | action # rest \<Rightarrow>
                    (case main_args W action rest a of
                       (False, revokefile, a) \<Rightarrow> (Some EXIT_FAILURE, a)
                     | (True, revokefile, a) \<Rightarrow>
                         (case main_setup W f action a of
                            (False, a) \<Rightarrow> (Some EXIT_FAILURE, a)
                          | (True, a) \<Rightarrow> main_run X W fuel f action revokefile a)))))"

subsection \<open>Notions used in the statements\<close>

text \<open>The fields that a request leaves alone.\<close>

definition same_session :: "acme \<Rightarrow> acme \<Rightarrow> bool" where
  "same_session a a' =
     (key a' = key a \<and> dkey a' = dkey a \<and> kid a' = kid a \<and> hook a' = hook a \<and>
      dir a' = dir a \<and> order a' = order a \<and> account_obj a' = account_obj a \<and>
      names a' = names a \<and> email a' = email a \<and> certdir a' = certdir a \<and>
      warnings a' = warnings a)"

text \<open>A call of \<^verbatim>\<open>acme_post\<close> that sent its request: the nonce was there, one
  \<^verbatim>\<open>curl_post\<close> was made, and the nonce is replaced if an answer came.\<close>

definition post_sent :: "world \<Rightarrow> string option \<Rightarrow> string \<Rightarrow> acme \<Rightarrow> int \<Rightarrow> acme \<Rightarrow> bool" where
  "post_sent W url payload a r a' =
     (\<exists>n u jws. nonce a = Some n \<and> url = Some u \<and>
        trace a' = trace a @ [Curl_post u (protected_call n u a) payload jws] \<and>
        (case w_curl W (trace a') of
           None \<Rightarrow> r = 0 \<and> nonce a' = nonce a
         | Some c \<Rightarrow> r = curl_code c \<and>
                     nonce a' = find_header (curl_headers c) ''Replay-Nonce''))"


text \<open>The nonce that a protected header carries.\<close>

definition nonce_of :: "protected \<Rightarrow> string" where
  "nonce_of p = (case p of Protected_kid n u k \<Rightarrow> n | Protected_jwk n u pk \<Rightarrow> n)"

text \<open>The request that asks for the account of the key, in \<^verbatim>\<open>account_new\<close> and
  \<^verbatim>\<open>account_retrieve\<close>.\<close>

definition only_return_existing :: string where
  \<open>only_return_existing = ''{"onlyReturnExisting":true}''\<close>

text \<open>The events of a run from the state \<open>a\<close> to the state \<open>a'\<close>.\<close>

definition new_events :: "acme \<Rightarrow> acme \<Rightarrow> event list" where
  "new_events a a' = drop (length (trace a)) (trace a')"

text \<open>
  What the account state says about a protected header: the \<^verbatim>\<open>kid\<close> form with the
  stored account URL if there is a non-empty one, the \<^verbatim>\<open>jwk\<close> form with the account key
  otherwise; in both forms the URL of the request.
\<close>

definition post_form_ok :: "string option \<Rightarrow> privkey option \<Rightarrow> string \<Rightarrow> protected \<Rightarrow> bool" where
  "post_form_ok kd pk u p =
     (case p of
        Protected_kid n u' k \<Rightarrow> u' = u \<and> kd = Some k \<and> k \<noteq> []
      | Protected_jwk n u' pk' \<Rightarrow> u' = u \<and> pk' = pk \<and> \<not> nonempty kd)"

text \<open>
  An event that fits a session with the account URL \<open>kd\<close>, the account key \<open>pk\<close> and the
  thumbprint \<open>T\<close>: a request is signed as the account state says, and a challenge is
  shown to the hook or to the operator with the key authorization of its type and token.
  With \<open>T = None\<close> no challenge is shown at all.
\<close>

definition ev_ok :: "ext \<Rightarrow> string option \<Rightarrow> privkey option \<Rightarrow> string option \<Rightarrow> event \<Rightarrow> bool" where
  "ev_ok X kd pk T e =
     (case e of
        Curl_post u p payload jws \<Rightarrow> post_form_ok kd pk u p
      | Hook_run h m ty iv tok ka \<Rightarrow>
          (case T of None \<Rightarrow> False | Some tp \<Rightarrow> key_authorization X ty tok tp = Some ka)
      | Ask_challenge ty iv tok ka \<Rightarrow>
          (case T of None \<Rightarrow> False | Some tp \<Rightarrow> key_authorization X ty tok tp = Some ka)
      | _ \<Rightarrow> True)"

text \<open>A run from \<open>a\<close> to \<open>a'\<close> that keeps the account key, the account URL, the hook and
  the directory, and only adds events that fit them.\<close>

definition evs :: "ext \<Rightarrow> string option \<Rightarrow> acme \<Rightarrow> acme \<Rightarrow> bool" where
  "evs X T a a' =
     (key a' = key a \<and> kid a' = kid a \<and> hook a' = hook a \<and> dir a' = dir a \<and>
      prefix (trace a) (trace a') \<and>
      list_all (ev_ok X (kid a) (key a) T) (new_events a a'))"

text \<open>
  The protocol of the hook, read off a history. An attempt is the program with the
  last four arguments of a run of the hook. \<open>scan\<close> follows the runs of the hook in a
  list of events (\<open>pre\<close> is the history before them), one \<open>hook_step\<close> for each: a run with \<^verbatim>\<open>begin\<close> must find no
  attempt open and opens one if the child exits with 0, opens none if it exits with
  another status, and ends everything (\<open>Dead\<close>) if the result is negative; a run with
  \<^verbatim>\<open>done\<close> or \<^verbatim>\<open>failed\<close> must find its own attempt open and closes it; after \<open>Dead\<close> no
  event may follow. The result is \<open>None\<close> if the list breaks one of these rules.
\<close>

datatype attempt = Attempt string string string string string

datatype hstate = Closed | Opened attempt | Dead

definition hook_step :: "world \<Rightarrow> event list \<Rightarrow> hstate \<Rightarrow> event \<Rightarrow> hstate option" where
  "hook_step W pre st e =
     (if st = Dead then None
      else
        (case e of
           Hook_run h m ty iv tok ka \<Rightarrow>
             (if m = ''begin'' then
                (if st \<noteq> Closed then None
                 else
                   (let r = wait_result (w_child W (pre @ [e]))
                    in Some (if r < 0 then Dead
                             else if r > 0 then Closed
                             else Opened (Attempt h ty iv tok ka))))
              else if (m = ''done'' \<or> m = ''failed'') \<and> st = Opened (Attempt h ty iv tok ka)
              then Some Closed
              else None)
         | _ \<Rightarrow> Some st))"

fun scan :: "world \<Rightarrow> event list \<Rightarrow> hstate \<Rightarrow> event list \<Rightarrow> hstate option" where
  "scan W pre st [] = Some st"
| "scan W pre st (e # es) =
     (case hook_step W pre st e of
        None \<Rightarrow> None
      | Some st' \<Rightarrow> scan W (pre @ [e]) st' es)"

definition is_open :: "hstate \<Rightarrow> bool" where
  "is_open st = (case st of Opened t \<Rightarrow> True | _ \<Rightarrow> False)"

text \<open>
  The two phases of a run, as the claim on the protected header has them. In the
  first, a signed request has the \<^verbatim>\<open>jwk\<close> form and goes to the \<^verbatim>\<open>newAccount\<close> URL of the
  directory \<open>d\<close>; in the second, it has the \<^verbatim>\<open>kid\<close> form with the account URL \<open>kd\<close>,
  which is not empty. Both say nothing on the other events.
\<close>

definition jwk_phase :: "ext \<Rightarrow> json option \<Rightarrow> event \<Rightarrow> bool" where
  "jwk_phase X d e =
     (case e of
        Curl_post u p payload jws \<Rightarrow>
          (case p of
             Protected_jwk n u' pk \<Rightarrow> u' = u \<and> json_find_string X d ''newAccount'' = Some u
           | Protected_kid n u' k \<Rightarrow> False)
      | _ \<Rightarrow> True)"

definition kid_phase :: "string option \<Rightarrow> event \<Rightarrow> bool" where
  "kid_phase kd e =
     (case e of
        Curl_post u p payload jws \<Rightarrow>
          (case p of
             Protected_kid n u' k \<Rightarrow> u' = u \<and> k \<noteq> [] \<and> kd = Some k
           | Protected_jwk n u' pk \<Rightarrow> False)
      | _ \<Rightarrow> True)"

text \<open>The events before the first request: calls to the file system and the loads
  of the keys and of the certificate.\<close>

definition fs_event :: "event \<Rightarrow> bool" where
  "fs_event e =
     (case e of
        Access p m \<Rightarrow> True
      | Mkdir p m \<Rightarrow> True
      | Stat p \<Rightarrow> True
      | Key_load c p \<Rightarrow> True
      | Cert_valid d ns v \<Rightarrow> True
      | _ \<Rightarrow> False)"

text \<open>The events of the account phase: requests to the directory and for a nonce,
  the prompt for the terms, and signed requests in the \<^verbatim>\<open>jwk\<close> form to \<^verbatim>\<open>newAccount\<close>.\<close>

definition acct_event :: "ext \<Rightarrow> json option \<Rightarrow> event \<Rightarrow> bool" where
  "acct_event X d e =
     (case e of
        Curl_get u \<Rightarrow> True
      | Ask_terms t \<Rightarrow> True
      | Curl_post u p payload jws \<Rightarrow> jwk_phase X d e
      | _ \<Rightarrow> False)"

text \<open>A state before the first request.\<close>

definition fresh :: "acme \<Rightarrow> bool" where
  "fresh a = (kid a = None \<and> list_all fs_event (trace a))"

text \<open>An event that is a run of the hook or a prompt for a challenge.\<close>

definition is_hook :: "event \<Rightarrow> bool" where
  "is_hook e =
     (case e of
        Hook_run h m ty iv tok ka \<Rightarrow> True
      | Ask_challenge ty iv tok ka \<Rightarrow> True
      | _ \<Rightarrow> False)"

text \<open>A run of the account phase: it keeps the key, the hook and the directory, and
  adds events of that phase only.\<close>

definition acct_run :: "ext \<Rightarrow> acme \<Rightarrow> acme \<Rightarrow> bool" where
  "acct_run X a a' =
     (key a' = key a \<and> hook a' = hook a \<and> dir a' = dir a \<and>
      prefix (trace a) (trace a') \<and>
      list_all (acct_event X (dir a)) (new_events a a'))"

text \<open>A run from \<open>a\<close> to \<open>a'\<close> whose events take the protocol of the hook from the
  state \<open>st\<close> to the state \<open>st'\<close>.\<close>

definition hooks :: "world \<Rightarrow> acme \<Rightarrow> acme \<Rightarrow> hstate \<Rightarrow> hstate \<Rightarrow> bool" where
  "hooks W a a' st st' =
     (prefix (trace a) (trace a') \<and> scan W (trace a) st (new_events a a') = Some st')"

text \<open>The attempt that is open after the hook accepted a challenge: none if no hook
  is configured.\<close>

definition attempt_of :: "acme \<Rightarrow> string \<Rightarrow> string \<Rightarrow> string \<Rightarrow> string \<Rightarrow> hstate" where
  "attempt_of a ty iv tok ka =
     (if nonempty (hook a) then Opened (Attempt (str (hook a)) ty iv tok ka) else Closed)"

text \<open>What a run of the driver may leave behind: if the hook failed to run, the driver
  gave up; if an attempt is still open, the driver is still polling.\<close>

definition hook_end :: "hstate \<Rightarrow> bool \<Rightarrow> bool \<Rightarrow> bool" where
  "hook_end st failed polling = ((st = Dead \<longrightarrow> failed) \<and> (is_open st \<longrightarrow> polling))"

text \<open>The events before the account is known: those of the file system and those of
  the account phase.\<close>

definition pre_event :: "ext \<Rightarrow> json option \<Rightarrow> event \<Rightarrow> bool" where
  "pre_event X d e = (fs_event e \<or> acct_event X d e)"

text \<open>
  The action phase of a run of \<^verbatim>\<open>main\<close>, from the state \<open>b\<close> in which the account is
  known to the final state \<open>a'\<close> with the exit code \<open>rc\<close>: the session is kept, and the
  hook protocol is followed.
\<close>

definition act_run :: "ext \<Rightarrow> world \<Rightarrow> acme \<Rightarrow> int option \<Rightarrow> acme \<Rightarrow> bool" where
  "act_run X W b rc a' =
     (evs X (jws_thumbprint X (key b)) b a' \<and>
      (\<exists>st. hooks W b a' Closed st \<and> hook_end st (rc = Some EXIT_FAILURE) (rc = None)))"

text \<open>
  The shape of every run of \<^verbatim>\<open>main\<close>: either it ends before the account is known, or
  it gets to a state \<open>b\<close> in which the account is known (\<^verbatim>\<open>account_retrieve\<close> returned
  true) and goes on from there with the action.
\<close>

definition run_shape :: "ext \<Rightarrow> world \<Rightarrow> int option \<Rightarrow> acme \<Rightarrow> bool" where
  "run_shape X W rc a' =
     (list_all (pre_event X (dir a')) (trace a') \<or>
      (\<exists>b. list_all (pre_event X (dir b)) (trace b) \<and> kid b \<noteq> None \<and> act_run X W b rc a'))"

text \<open>What an action does when the account is known: it keeps the session and follows
  the protocol of the hook.\<close>

definition act_ok :: "ext \<Rightarrow> world \<Rightarrow> (acme \<Rightarrow> bool option \<times> acme) \<Rightarrow> bool" where
  "act_ok X W act =
     (\<forall>b r b'. act b = (r, b') \<longrightarrow>
        evs X (jws_thumbprint X (key b)) b b' \<and>
        (\<exists>st. hooks W b b' Closed st \<and> hook_end st (r = Some False) (r = None)))"

text \<open>
  The key authorization as the specification words it, for the thumbprint \<open>T\<close> of the
  account key: the hash of token, dot and thumbprint for the type \<^verbatim>\<open>dns-01\<close>, and the
  text itself for every other type. \<open>key_auth_ok\<close> says of an event that shows a
  challenge (a run of the hook, a prompt) that it carries this key authorization.
\<close>

definition spec_key_auth :: "ext \<Rightarrow> string option \<Rightarrow> string \<Rightarrow> string \<Rightarrow> string option" where
  "spec_key_auth X T ty token =
     (case T of
        None \<Rightarrow> None
      | Some thumbprint \<Rightarrow>
          if ty = ''dns-01'' then sha256_base64url X (token @ ''.'' @ thumbprint)
          else Some (token @ ''.'' @ thumbprint))"

definition key_auth_ok :: "ext \<Rightarrow> string option \<Rightarrow> event \<Rightarrow> bool" where
  "key_auth_ok X T e =
     (case e of
        Hook_run h m ty iv tok ka \<Rightarrow> spec_key_auth X T ty tok = Some ka
      | Ask_challenge ty iv tok ka \<Rightarrow> spec_key_auth X T ty tok = Some ka
      | _ \<Rightarrow> True)"

text \<open>The event that shows a challenge with its key authorization: the run of the
  hook with \<^verbatim>\<open>begin\<close>, or the prompt if no hook is configured.\<close>

definition shown :: "acme \<Rightarrow> string \<Rightarrow> string \<Rightarrow> string \<Rightarrow> string \<Rightarrow> event" where
  "shown a ty iv tok ka =
     (if nonempty (hook a) then Hook_run (str (hook a)) ''begin'' ty iv tok ka
      else Ask_challenge ty iv tok ka)"

text \<open>A run that keeps the names, the domain key and the directory of the
  certificate.\<close>

definition keeps :: "acme \<Rightarrow> acme \<Rightarrow> bool" where
  "keeps a a' = (names a' = names a \<and> dkey a' = dkey a \<and> certdir a' = certdir a)"

text \<open>What an event is for the server and for the disk: a request with its URL (and
  its payload, if it is a signed one), or the certificate that is saved.\<close>

datatype step =
    Step_get string
  | Step_post string string
  | Step_save "string option" "string option"
  | Step_other

definition step_of :: "event \<Rightarrow> step" where
  "step_of e =
     (case e of
        Curl_get u \<Rightarrow> Step_get u
      | Curl_post u p payload jws \<Rightarrow> Step_post u payload
      | Cert_save b d \<Rightarrow> Step_save b d
      | _ \<Rightarrow> Step_other)"

definition steps :: "acme \<Rightarrow> acme \<Rightarrow> step list" where
  "steps a a' = map step_of (new_events a a')"
subsection \<open>A small server and library, to run the model on\<close>

text \<open>
  The theorems hold for every environment. To run the model on concrete inputs, here
  is one: a server that answers a request by the history before it, its URL and its
  payload (\<open>routes\<close>), a hook
  child that always ends the same way, a file system in which every call succeeds,
  and a JSON module that parses a body by looking it up in a table (\<open>docs\<close>).
\<close>

type_synonym routes = "event list \<Rightarrow> string \<Rightarrow> string \<Rightarrow> curldata option"

definition mock_curl :: "routes \<Rightarrow> event list \<Rightarrow> curldata option" where
  "mock_curl routes h =
     (case rev h of
        Curl_get u # hist \<Rightarrow> routes hist u []
      | Curl_post u p payload jws # hist \<Rightarrow> routes hist u payload
      | _ \<Rightarrow> None)"

definition mock_world :: "routes \<Rightarrow> wstatus \<Rightarrow> bool \<Rightarrow> world" where
  "mock_world routes child valid =
     \<lparr>w_crypto_init = True, w_curl_global_init = True,
      w_curl = mock_curl routes,
      w_child = (\<lambda>h. child),
      w_scanf = (\<lambda>h. Some (CHR ''y'')),
      w_access = (\<lambda>h. True),
      w_mkdir = (\<lambda>h. True),
      w_stat = (\<lambda>h. Some True),
      w_key_load = (\<lambda>h. Some (Privkey ''account-or-domain-key'')),
      w_cert_valid = (\<lambda>h. valid),
      w_cert_save = (\<lambda>h. True),
      w_cert_der = (\<lambda>h. Some ''DER'')\<rparr>"

definition mock_find :: "json option \<Rightarrow> string \<Rightarrow> json option" where
  "mock_find j k = (case j of Some (JSON_OBJECT ms) \<Rightarrow> map_of ms k | _ \<Rightarrow> None)"

definition mock_find_string :: "json option \<Rightarrow> string \<Rightarrow> string option" where
  "mock_find_string j k = (case mock_find j k of Some (JSON_STRING s) \<Rightarrow> Some s | _ \<Rightarrow> None)"

definition mock_compare_string :: "json option \<Rightarrow> string \<Rightarrow> string \<Rightarrow> int" where
  "mock_compare_string j k v =
     (case mock_find_string j k of None \<Rightarrow> - 1 | Some s \<Rightarrow> if s = v then 0 else 1)"

definition mock_ext :: "(string \<times> json) list \<Rightarrow> ext" where
  "mock_ext docs =
     \<lparr>json_parse = map_of docs,
      json_find = mock_find,
      json_find_string = mock_find_string,
      json_compare_string = mock_compare_string,
      jws_protected_jwk = (\<lambda>n u pk. Some (''jwk,'' @ n @ '','' @ u)),
      jws_protected_kid = (\<lambda>n u k. Some (''kid,'' @ k @ '','' @ n @ '','' @ u)),
      jws_encode = (\<lambda>p payload pk. Some (p @ ''.'' @ payload)),
      jws_thumbprint = (\<lambda>pk. Some ''THUMB''),
      sha256_base64url = (\<lambda>s. Some (''sha256('' @ s @ '')'')),
      csr_gen = (\<lambda>ns pk. Some ''CSR''),
      strtol = (\<lambda>s. (60, []))\<rparr>"

text \<open>An answer with a JSON body, a fresh nonce and, if given, a location.\<close>

definition answer :: "int \<Rightarrow> string list \<Rightarrow> string \<Rightarrow> curldata option" where
  "answer status hs b = Some (Curldata status (header_block hs) b)"

text \<open>A directory and an account that exists: the request to \<^verbatim>\<open>newAccount\<close> is
  answered with status 200 and the location of the account.\<close>

definition docs1 :: "(string \<times> json) list" where
  "docs1 =
     [(''DIR'', JSON_OBJECT [(''newNonce'', JSON_STRING ''https://ca/nonce''),
                             (''newAccount'', JSON_STRING ''https://ca/acct''),
                             (''newOrder'', JSON_STRING ''https://ca/order'')]),
      (''ACCT'', JSON_OBJECT [(''status'', JSON_STRING ''valid'')])]"

definition routes1 :: routes where
  "routes1 hist u payload =
     (if u = PRODUCTION_URL then
        answer 200 [''HTTP/1.1 200 OK'', ''Content-Type: application/json''] ''DIR''
      else if u = ''https://ca/nonce'' then
        answer 204 [''HTTP/1.1 204 No Content'', ''Replay-Nonce: n0''] []
      else if u = ''https://ca/acct'' then
        answer 200 [''HTTP/1.1 200 OK'', ''Content-Type: application/json'',
                    ''Replay-Nonce: n1'', ''Location: https://ca/acct/1''] ''ACCT''
      else if u = ''https://ca/acct/1'' then
        answer 200 [''HTTP/1.1 200 OK'', ''Content-Type: application/json''] ''ACCT''
      else None)"

text \<open>The same server, but the location of the account is empty.\<close>

definition routes2 :: routes where
  "routes2 hist u payload =
     (if u = ''https://ca/acct'' then
        answer 200 [''HTTP/1.1 200 OK'', ''Content-Type: application/json'',
                    ''Replay-Nonce: n1'', ''Location: ''] ''ACCT''
      else routes1 hist u payload)"

text \<open>
  An order for \<^verbatim>\<open>example.com\<close> with one authorization and one challenge of type
  \<^verbatim>\<open>http-01\<close> with the token \<^verbatim>\<open>T1\<close>. The challenge is valid at the first poll; the order is
  ready when it is polled, and valid once the request to finalize it has been made.
\<close>

definition docs3 :: "(string \<times> json) list" where
  "docs3 = docs1 @
     [(''ORDER'', JSON_OBJECT [(''status'', JSON_STRING ''pending''),
                               (''authorizations'', JSON_ARRAY [JSON_STRING ''https://ca/authz/1'']),
                               (''finalize'', JSON_STRING ''https://ca/fin/1'')]),
      (''AUTHZ'', JSON_OBJECT [(''status'', JSON_STRING ''pending''),
                               (''identifier'', JSON_OBJECT [(''type'', JSON_STRING ''dns''),
                                                             (''value'', JSON_STRING ''example.com'')]),
                               (''challenges'', JSON_ARRAY
                                  [JSON_OBJECT [(''type'', JSON_STRING ''http-01''),
                                                (''url'', JSON_STRING ''https://ca/chal/1''),
                                                (''token'', JSON_STRING ''T1''),
                                                (''status'', JSON_STRING ''pending'')]])]),
      (''PENDING'', JSON_OBJECT [(''status'', JSON_STRING ''pending'')]),
      (''VALID'', JSON_OBJECT [(''status'', JSON_STRING ''valid''),
                               (''certificate'', JSON_STRING ''https://ca/cert/1'')]),
      (''READY'', JSON_OBJECT [(''status'', JSON_STRING ''ready''),
                               (''finalize'', JSON_STRING ''https://ca/fin/1'')])]"

definition json_headers :: "string list" where
  "json_headers = [''HTTP/1.1 200 OK'', ''Content-Type: application/json'', ''Replay-Nonce: n2'']"

definition finalized :: "event list \<Rightarrow> bool" where
  "finalized h =
     list_ex (\<lambda>e. case e of Curl_post u p payload jws \<Rightarrow> u = ''https://ca/fin/1'' | _ \<Rightarrow> False) h"

definition routes3 :: routes where
  "routes3 hist u payload =
     (if u = ''https://ca/order'' then
        answer 201 (json_headers @ [''Location: https://ca/order/1'']) ''ORDER''
      else if u = ''https://ca/authz/1'' then answer 200 json_headers ''AUTHZ''
      else if u = ''https://ca/chal/1'' then
        answer 200 json_headers (if payload = ''{}'' then ''PENDING'' else ''VALID'')
      else if u = ''https://ca/order/1'' then
        answer 200 json_headers (if finalized hist then ''VALID'' else ''READY'')
      else if u = ''https://ca/fin/1'' then answer 200 json_headers ''PENDING''
      else if u = ''https://ca/cert/1'' then
        answer 200 [''HTTP/1.1 200 OK'', ''Content-Type: application/pem-certificate-chain'',
                    ''Replay-Nonce: n3''] ''PEM''
      else routes1 hist u payload)"

text \<open>The challenge of that order, and a state of the driver with a hook, a nonce and
  the account URL.\<close>

definition chal1 :: json where
  "chal1 = JSON_OBJECT [(''type'', JSON_STRING ''http-01''),
                        (''url'', JSON_STRING ''https://ca/chal/1''),
                        (''token'', JSON_STRING ''T1''),
                        (''status'', JSON_STRING ''pending'')]"

definition acme1 :: acme where
  "acme1 = acme0\<lparr>hook := Some ''/tmp/h'', nonce := Some ''n2'', kid := Some ''https://ca/acct/1''\<rparr>"

text \<open>The same order, but its challenge is of type \<^verbatim>\<open>dns-01\<close>.\<close>

definition chal2 :: json where
  "chal2 = JSON_OBJECT [(''type'', JSON_STRING ''dns-01''),
                        (''url'', JSON_STRING ''https://ca/chal/1''),
                        (''token'', JSON_STRING ''T1''),
                        (''status'', JSON_STRING ''pending'')]"

definition docs4 :: "(string \<times> json) list" where
  "docs4 =
     (''AUTHZ'', JSON_OBJECT [(''status'', JSON_STRING ''pending''),
                              (''identifier'', JSON_OBJECT [(''type'', JSON_STRING ''dns''),
                                                            (''value'', JSON_STRING ''example.com'')]),
                              (''challenges'', JSON_ARRAY [chal2])]) # docs3"
section \<open>Properties\<close>

subsection \<open>Domain names\<close>

lemma name_class_iff: "name_class c = (alnum c \<or> separator c)"
proof (cases c)
  case (Char x1 x2 x3 x4 x5 x6 x7 x8)
  show ?thesis unfolding Char name_class_def alnum_def separator_def isupper_def islower_def isdigit_def
    by (cases x1; cases x2; cases x3; cases x4; cases x5; cases x6; cases x7; cases x8; simp)
qed

lemma alnum_not_special:
  "alnum c \<Longrightarrow> c \<noteq> CHR ''.'' \<and> c \<noteq> CHR ''_'' \<and> c \<noteq> CHR ''-'' \<and> c \<noteq> CHR ''*''"
  by (auto simp: alnum_def isupper_def islower_def isdigit_def)

lemma star_not_class: "\<not> name_class (CHR ''*'')"
  by (simp add: name_class_def)

lemma validate_loop_char:
  "validate_loop s j len cs =
     (list_all (\<lambda>(i, c). step_ok s i c) (enumerate j cs) \<and>
      (len \<or> list_ex (\<lambda>c. c \<noteq> CHR ''*'') cs))"
proof (induction cs arbitrary: j len)
  case Nil
  show ?case by simp
next
  case (Cons c cs)
  show ?case
    using alnum_not_special[of c]
    by (auto simp: Cons.IH step_ok_def alnum_def)
qed

lemma step_ok_later: "0 < i \<Longrightarrow> step_ok s i c = (name_class c \<or> permitted_star s i c)"
  by (auto simp: step_ok_def name_class_iff separator_def permitted_star_def)

lemma list_all_enumerate_cong:
  "(\<And>i c. n \<le> i \<Longrightarrow> P i c = Q i c) \<Longrightarrow>
   list_all (\<lambda>(i, c). P i c) (enumerate n cs) = list_all (\<lambda>(i, c). Q i c) (enumerate n cs)"
  by (induction cs arbitrary: n) auto

lemma step_ok_tail:
  "list_all (\<lambda>(i, c). step_ok s i c) (enumerate (Suc 0) cs) =
   list_all (\<lambda>(i, c). name_class c \<or> permitted_star s i c) (enumerate (Suc 0) cs)"
  by (rule list_all_enumerate_cong) (simp add: step_ok_later)

lemma step_ok_first:
  "step_ok (c # cs) 0 c =
     ((name_class c \<or> permitted_star (c # cs) 0 c) \<and> c \<noteq> CHR ''.'')"
  using alnum_not_special[of c]
  by (cases cs) (auto simp: step_ok_def name_class_iff separator_def permitted_star_def
      c_index_def NUL_def)

lemma star_then_dot:
  "step_ok (c # cs) 0 c \<Longrightarrow> c = CHR ''*'' \<Longrightarrow> list_ex (\<lambda>c. c \<noteq> CHR ''*'') cs"
  by (cases cs) (auto simp: step_ok_def c_index_def NUL_def alnum_def isupper_def islower_def isdigit_def)

lemma validate_domain_str_code: "validate_domain_str s = code_domain_ok s"
proof (cases s)
  case Nil
  then show ?thesis
    by (simp add: validate_domain_str_def code_domain_ok_def)
next
  case (Cons c cs)
  have ex: "step_ok (c # cs) 0 c \<Longrightarrow> list_ex (\<lambda>c. c \<noteq> CHR ''*'') (c # cs)"
    using star_then_dot[of c cs] by auto
  show ?thesis
    unfolding validate_domain_str_def validate_loop_char code_domain_ok_def chars_ok_def
      leading_dot_def Cons
    using ex by (auto simp: step_ok_tail step_ok_first)
qed

text \<open>If only the dot is taken as a separator, the last condition of the specification
  says the same as "not empty" for a name that does not start with a dot.\<close>

lemma validate_domain_str_dot_reading:
  "validate_domain_str s =
     (chars_ok s \<and> \<not> leading_dot s \<and> list_ex (\<lambda>c. c \<noteq> CHR ''.'') s)"
  unfolding validate_domain_str_code code_domain_ok_def leading_dot_def
  by (cases s) auto

text \<open>
  C6 (as amended). \<^verbatim>\<open>validate_domain_str\<close> accepts a name iff every character is in
  \<^verbatim>\<open>[A-Za-z0-9._-]\<close> or is the \<^verbatim>\<open>*\<close> of a prefix \<^verbatim>\<open>*.\<close>, the name does not start with
  a dot, and the name is not empty. The characters \<^verbatim>\<open>.\<close>, \<^verbatim>\<open>_\<close> and \<^verbatim>\<open>-\<close> count for
  the last condition: the flag \<^verbatim>\<open>len\<close> is set for them too.
\<close>

theorem validate_domain_str_accepts:
  "validate_domain_str s = (chars_ok s \<and> \<not> leading_dot s \<and> s \<noteq> [])"
  using validate_domain_str_code[of s] by (simp add: code_domain_ok_def)

theorem validate_domain_str_accepts_witness:
  "validate_domain_str ''*.example.com'' \<and> \<not> validate_domain_str []"
  using validate_domain_str_accepts[of "''*.example.com''"] validate_domain_str_accepts[of "[]"]
  by (simp add: chars_ok_def name_class_def leading_dot_def permitted_star_def)

text \<open>
  C6 as the specification states it, with "at least one non-separator character",
  fails: the name \<^verbatim>\<open>-\<close> is accepted and has no character but a separator.
\<close>

theorem separator_only_name_counterexample:
  "\<not> (validate_domain_str ''-'' = spec_domain_ok ''-'')"
  by (simp add: validate_domain_str_def spec_domain_ok_def separator_def)

subsection \<open>Header lookup\<close>

lemma prefix_line:
  assumes "LF \<notin> set p" "p \<noteq> []" "last p \<noteq> CR" "LF \<notin> set l"
  shows "prefix p (l @ CR # LF # rest) = prefix p l"
proof
  assume "prefix p (l @ CR # LF # rest)"
  then have "prefix p l \<or> (\<exists>us. p = l @ us \<and> us \<noteq> [] \<and> prefix us (CR # LF # rest))"
    by (auto simp: prefix_append)
  then show "prefix p l"
  proof
    assume "\<exists>us. p = l @ us \<and> us \<noteq> [] \<and> prefix us (CR # LF # rest)"
    then obtain us where us: "p = l @ us" "us \<noteq> []" "prefix us (CR # LF # rest)" by blast
    from us(2,3) obtain vs where "us = CR # vs" "prefix vs (LF # rest)"
      by (cases us) auto
    with us(1) assms(1,3) show ?thesis by (cases vs) auto
  qed
next
  assume "prefix p l" then show "prefix p (l @ CR # LF # rest)" by (simp add: prefix_prefix)
qed

lemma CR_LF_neq: "CR \<noteq> LF" "CR \<noteq> CHR '' ''" "LF \<noteq> CHR '' ''" "LF \<noteq> CHR '':''"
  by (simp_all add: CR_def LF_def)

lemma match_here_line:
  assumes "LF \<notin> set name" "LF \<notin> set l"
  shows "match_here name (l @ CR # LF # rest) =
           (if prefix (name @ '': '') l then Some (drop (length name + 2) l) else None)"
proof -
  let ?p = "name @ '': ''"
  have p: "LF \<notin> set ?p" "?p \<noteq> []" "last ?p \<noteq> CR"
    using assms(1) CR_LF_neq by auto
  have pre: "prefix ?p (l @ CR # LF # rest) = prefix ?p l"
    by (rule prefix_line[OF p assms(2)])
  show ?thesis
  proof (cases "prefix ?p l")
    case False
    with pre show ?thesis by (simp add: match_here_def strip_prefix_def)
  next
    case True
    then obtain v where l: "l = ?p @ v" by (auto simp: prefix_def)
    with assms(2) have v: "LF \<notin> set v" by simp
    have tw: "takeWhile (\<lambda>c. c \<noteq> LF) (v @ CR # LF # rest) = v @ [CR]"
      using v CR_LF_neq(1) by (induction v) auto
    have dr: "drop (length ?p) (l @ CR # LF # rest) = v @ CR # LF # rest"
      by (simp add: l)
    have sp: "strip_prefix ?p (l @ CR # LF # rest) = Some (v @ CR # LF # rest)"
      unfolding strip_prefix_def using True pre dr by simp
    have "match_here name (l @ CR # LF # rest) = Some v"
      unfolding match_here_def sp by (simp add: tw)
    moreover have "drop (length name + 2) l = v" by (simp add: l)
    ultimately show ?thesis using True by simp
  qed
qed

lemma match_here_Nil: "match_here name [] = None"
  by (simp add: match_here_def strip_prefix_def)

lemma find_from_skip:
  "LF \<notin> set l \<Longrightarrow>
   find_from name False (l @ CR # LF # rest) = find_from name True rest"
  by (induction l) (auto simp: CR_LF_neq match_here_Nil split: option.splits list.splits)

lemma find_from_line:
  assumes "LF \<notin> set name" "LF \<notin> set l"
  shows "find_from name True (l @ CR # LF # rest) =
           (if prefix (name @ '': '') l then Some (drop (length name + 2) l)
            else find_from name True rest)"
proof (cases l)
  case Nil
  have "match_here name (CR # LF # rest) = None"
    using match_here_line[OF assms(1), of "[]" rest] by simp
  then show ?thesis
    using Nil find_from_skip[of "[]" name rest] by (simp add: CR_LF_neq)
next
  case (Cons c cs)
  with assms(2) have c: "c \<noteq> LF" "LF \<notin> set cs" by auto
  have m: "match_here name (c # cs @ CR # LF # rest) =
           (if prefix (name @ '': '') l then Some (drop (length name + 2) l) else None)"
    using match_here_line[OF assms, of rest] Cons by simp
  show ?thesis
    using c find_from_skip[OF c(2), of name rest] by (simp add: Cons m[unfolded Cons])
qed

lemma find_header_block:
  assumes "LF \<notin> set name" "\<forall>l\<in>set ls. LF \<notin> set l"
  shows "find_header (header_block ls) name =
           (case find (prefix (name @ '': '')) ls of
              None \<Rightarrow> None
            | Some l \<Rightarrow> Some (drop (length name + 2) l))"
  using assms(2) unfolding find_header_def header_block_def
proof (induction ls)
  case Nil
  show ?case by (simp add: match_here_Nil)
next
  case (Cons l ls)
  then show ?case
    using find_from_line[OF assms(1), of l] by simp
qed

lemma header_name_no_LF: "header_name name \<Longrightarrow> LF \<notin> set name"
  by (auto simp: header_name_def list_all_iff alnum_def isupper_def islower_def isdigit_def LF_def)

lemma lines_from_line:
  "LF \<notin> set l \<Longrightarrow> lines_from cur (l @ LF # rest) = (cur @ l) # lines_from [] rest"
  by (induction l arbitrary: cur) auto

lemma lines_from_rest: "LF \<notin> set l \<Longrightarrow> lines_from cur l = []"
  by (induction l arbitrary: cur) auto

lemma complete_lines_line:
  "LF \<notin> set l \<Longrightarrow> complete_lines (l @ LF # rest) = l # complete_lines rest"
  by (simp add: complete_lines_def lines_from_line)

lemma complete_lines_rest: "LF \<notin> set l \<Longrightarrow> complete_lines l = []"
  by (simp add: complete_lines_def lines_from_rest)

lemma prefix_in_line:
  assumes "LF \<notin> set p" "LF \<notin> set l"
  shows "prefix p (l @ LF # rest) = prefix p l"
proof
  assume "prefix p (l @ LF # rest)"
  then have "prefix p l \<or> (\<exists>us. p = l @ us \<and> us \<noteq> [] \<and> prefix us (LF # rest))"
    by (auto simp: prefix_append)
  then show "prefix p l"
  proof
    assume "\<exists>us. p = l @ us \<and> us \<noteq> [] \<and> prefix us (LF # rest)"
    then obtain us where us: "p = l @ us" "us \<noteq> []" "prefix us (LF # rest)" by blast
    from us(2,3) have "LF \<in> set us" by (cases us) auto
    with us(1) assms(1) show ?thesis by simp
  qed
next
  assume "prefix p l" then show "prefix p (l @ LF # rest)" by (simp add: prefix_prefix)
qed

lemma match_here_in_line:
  assumes n: "LF \<notin> set name" and l: "LF \<notin> set l"
  shows "match_here name (l @ LF # rest) =
           (if header_line name l then Some (butlast (drop (length name + 2) l)) else None)"
proof -
  let ?p = "name @ '': ''"
  have p: "LF \<notin> set ?p" using n CR_LF_neq by auto
  have pre: "prefix ?p (l @ LF # rest) = prefix ?p l"
    by (rule prefix_in_line[OF p l])
  show ?thesis
  proof (cases "prefix ?p l")
    case False
    with pre show ?thesis by (simp add: match_here_def strip_prefix_def header_line_def)
  next
    case True
    then obtain v where lv: "l = ?p @ v" by (auto simp: prefix_def)
    with l have v: "LF \<notin> set v" by simp
    have tw: "takeWhile (\<lambda>c. c \<noteq> LF) (v @ LF # rest) = v"
      using v by (induction v) auto
    have sp: "strip_prefix ?p (l @ LF # rest) = Some (v @ LF # rest)"
      unfolding strip_prefix_def using True pre by (simp add: lv)
    have m: "match_here name (l @ LF # rest) =
             (if v \<noteq> [] \<and> last v = CR then Some (butlast v) else None)"
      unfolding match_here_def sp by (simp add: tw)
    have s: "suffix [CR] l = (v \<noteq> [] \<and> last v = CR)"
    proof (cases v rule: rev_cases)
      case Nil
      then show ?thesis using CR_LF_neq by (simp add: lv suffix_def)
    next
      case (snoc ys y)
      then show ?thesis by (auto simp: lv suffix_def)
    qed
    have d: "drop (length name + 2) l = v" by (simp add: lv)
    show ?thesis unfolding m d header_line_def s using True by simp
  qed
qed

lemma find_from_skip_line:
  "LF \<notin> set l \<Longrightarrow> find_from name False (l @ LF # rest) = find_from name True rest"
  by (induction l) auto

lemma find_from_in_line:
  assumes n: "LF \<notin> set name" and l: "LF \<notin> set l"
  shows "find_from name True (l @ LF # rest) =
           (if header_line name l then Some (butlast (drop (length name + 2) l))
            else find_from name True rest)"
proof (cases l)
  case Nil
  show ?thesis
    using match_here_in_line[OF n, of "[]" rest] by (simp add: Nil split: if_splits)
next
  case (Cons c cs)
  with l have c: "c \<noteq> LF" "LF \<notin> set cs" by auto
  have m: "match_here name (c # cs @ LF # rest) =
           (if header_line name l then Some (butlast (drop (length name + 2) l)) else None)"
    using match_here_in_line[OF n l, of rest] Cons by simp
  show ?thesis
    using c find_from_skip_line[OF c(2), of name rest] by (simp add: Cons m[unfolded Cons])
qed

lemma find_from_no_line:
  assumes l: "LF \<notin> set l"
  shows "find_from name b l = None"
proof -
  have m: "match_here name l = None" if "LF \<notin> set l" for l
  proof (cases "strip_prefix (name @ '': '') l")
    case None
    then show ?thesis by (simp add: match_here_def)
  next
    case (Some r)
    then have "set r \<subseteq> set l"
      by (auto simp: strip_prefix_def split: if_splits dest: in_set_dropD)
    with that have "LF \<notin> set r" by auto
    then have tw: "takeWhile (\<lambda>c. c \<noteq> LF) r = r" by (induction r) auto
    show ?thesis unfolding match_here_def Some by (simp add: tw Let_def)
  qed
  from l show ?thesis
    by (induction l arbitrary: b) (auto simp: m split: option.splits)
qed

lemma find_header_lines:
  assumes n: "LF \<notin> set name"
  shows "find_header hs name =
           (case find (header_line name) (complete_lines hs) of
              None \<Rightarrow> None
            | Some l \<Rightarrow> Some (butlast (drop (length name + 2) l)))"
proof (induction hs rule: length_induct)
  case (1 hs)
  show ?case
  proof (cases "LF \<in> set hs")
    case False
    then show ?thesis
      by (simp add: find_header_def find_from_no_line complete_lines_rest)
  next
    case True
    then obtain l rest where hs: "hs = l @ LF # rest" "LF \<notin> set l"
      by (auto dest: split_list_first)
    have "length rest < length hs" by (simp add: hs)
    with 1 have IH: "find_header rest name =
           (case find (header_line name) (complete_lines rest) of
              None \<Rightarrow> None
            | Some l \<Rightarrow> Some (butlast (drop (length name + 2) l)))" by blast
    show ?thesis
      using IH find_from_in_line[OF n hs(2), of rest]
      by (simp add: hs complete_lines_line find_header_def)
  qed
qed

text \<open>
  C9 (as amended). The lookup of a header name in a text returns the value of the
  first complete line (a line ended by a line feed) that starts with the name, a colon
  and a space, the name compared byte by byte, and that ends with a carriage return
  before its line feed; the value is what stands between that space and that carriage
  return. Lines that do not end with carriage return and line feed are passed over, and
  so is what follows the last line feed. The lookup distinguishes upper and lower case.
\<close>

theorem find_header_first_exact_match:
  assumes "header_name name"
  shows "find_header hs name =
           (case find (header_line name) (complete_lines hs) of
              None \<Rightarrow> None
            | Some l \<Rightarrow> Some (butlast (drop (length name + 2) l)))"
  using find_header_lines[OF header_name_no_LF[OF assms]] .

theorem find_header_first_exact_match_witness:
  "find_header (''HTTP/1.1 200 OK'' @ [CR, LF] @ ''replay-nonce: lower'' @ [CR, LF] @
                ''Replay-Nonce: only-LF'' @ [LF] @ ''Replay-Nonce: abc'' @ [CR, LF] @
                ''Replay-Nonce: def'' @ [CR, LF] @ ''Replay-Nonce: open'' @ [CR])
     ''Replay-Nonce'' = Some ''abc'' \<and>
   find_header (''Replay-Nonce: only-LF'' @ [LF] @ ''Replay-Nonce: open'' @ [CR])
     ''Replay-Nonce'' = None"
proof -
  let ?hs = "''HTTP/1.1 200 OK'' @ [CR, LF] @ ''replay-nonce: lower'' @ [CR, LF] @
             ''Replay-Nonce: only-LF'' @ [LF] @ ''Replay-Nonce: abc'' @ [CR, LF] @
             ''Replay-Nonce: def'' @ [CR, LF] @ ''Replay-Nonce: open'' @ [CR]"
  let ?hs2 = "''Replay-Nonce: only-LF'' @ [LF] @ ''Replay-Nonce: open'' @ [CR]"
  have n: "header_name ''Replay-Nonce''"
    by (simp add: header_name_def alnum_def isupper_def islower_def isdigit_def)
  have l: "find (header_line ''Replay-Nonce'') (complete_lines ?hs) =
             Some (''Replay-Nonce: abc'' @ [CR])"
    by code_simp
  have l2: "find (header_line ''Replay-Nonce'') (complete_lines ?hs2) = None"
    by code_simp
  show ?thesis
    unfolding find_header_first_exact_match[OF n] l l2 by simp
qed

text \<open>
  C9 as the specification states it fails: a header whose name is written in lower
  case is found by a lookup that ignores the case of letters, and not by
  \<^verbatim>\<open>find_header\<close>.
\<close>

theorem find_header_case_counterexample:
  "find_header (header_block [''replay-nonce: abc'']) ''Replay-Nonce'' = None \<and>
   spec_find_header [''replay-nonce: abc''] ''Replay-Nonce'' = Some ''abc''"
  by code_simp

subsection \<open>The nonce\<close>

subsection \<open>What \<^verbatim>\<open>acme_get\<close> and \<^verbatim>\<open>acme_post\<close> change\<close>

lemma acme_get_session: "same_session a (snd (acme_get X W url a))"
  by (simp add: acme_get_def same_session_def call_def clear_response_def fill_response_def
      store_response_def Let_def split: option.splits)

lemma acme_post_session: "same_session a (snd (acme_post X W url payload a))"
  by (simp add: acme_post_def same_session_def call_def clear_response_def fill_response_def
      store_response_def Let_def split: option.splits)

lemma acme_post_no_nonce:
  "nonce a = None \<Longrightarrow> acme_post X W url payload a = (0, fill_response (clear_response a))"
  by (simp add: acme_post_def clear_response_def)

lemma no_nonce_after [simp]:
  "nonce (fill_response (clear_response a)) = nonce a"
  "trace (fill_response (clear_response a)) = trace a"
  by (simp_all add: clear_response_def fill_response_def)

lemma acme_post_cases:
  assumes "acme_post X W url payload a = (r, a')"
  shows "(r = 0 \<and> trace a' = trace a \<and> nonce a' = nonce a) \<or> post_sent W url payload a r a'"
  using assms
  by (auto simp: acme_post_def post_sent_def call_def clear_response_def fill_response_def
      store_response_def protected_call_def Let_def split: option.splits)

lemma acme_get_trace:
  "trace (snd (acme_get X W (Some u) a)) = trace a @ [Curl_get u]"
  by (simp add: acme_get_def call_def clear_response_def fill_response_def
      store_response_def Let_def split: option.splits)

lemma acme_get_nonce:
  "nonce (snd (acme_get X W (Some u) a)) =
     (case w_curl W (trace a @ [Curl_get u]) of
        None \<Rightarrow> nonce a
      | Some c \<Rightarrow> find_header (curl_headers c) ''Replay-Nonce'')"
  by (simp add: acme_get_def call_def clear_response_def fill_response_def
      store_response_def Let_def split: option.splits)

text \<open>Every caller of \<^verbatim>\<open>acme_post\<close> fails when there is no nonce.\<close>

lemma no_nonce_account_create: "nonce a = None \<Longrightarrow> \<not> fst (account_create X W url a)"
  by (simp add: account_create_def acme_post_no_nonce)

lemma no_nonce_account_new: "nonce a = None \<Longrightarrow> \<not> fst (account_new X W y a)"
  by (simp add: account_new_def acme_post_no_nonce split: option.splits)

lemma no_nonce_account_retrieve: "nonce a = None \<Longrightarrow> \<not> fst (account_retrieve X W a)"
  by (simp add: account_retrieve_def acme_post_no_nonce split: option.splits)

lemma no_nonce_account_update:
  "nonce a = None \<Longrightarrow> need_email_update X a = Some True \<Longrightarrow> \<not> fst (account_update X W a)"
  by (simp add: account_update_def acme_post_no_nonce)

lemma no_nonce_account_deactivate: "nonce a = None \<Longrightarrow> \<not> fst (account_deactivate X W a)"
  by (simp add: account_deactivate_def acme_post_no_nonce)

lemma no_nonce_poll_challenge:
  "nonce a = None \<Longrightarrow> fst (poll_challenge X W (Suc fuel) url a) = Some False"
  by (simp add: acme_post_no_nonce)

lemma no_nonce_run_challenge:
  "nonce a = None \<Longrightarrow> fst (run_challenge X W fuel url ty iv tok ka a) = Some False"
  by (simp add: run_challenge_def acme_post_no_nonce split: prod.splits)

lemma no_nonce_authorization:
  "nonce a = None \<Longrightarrow> fst (authorization X W fuel tp au a) = Out"
  by (simp add: authorization_def acme_post_no_nonce split: json.splits)

lemma no_nonce_poll_ready:
  "nonce a = None \<Longrightarrow> fst (poll_ready X W (Suc fuel) url a) = Some False"
  by (simp add: acme_post_no_nonce)

lemma no_nonce_poll_valid:
  "nonce a = None \<Longrightarrow> fst (poll_valid X W (Suc fuel) url a) = Some False"
  by (simp add: acme_post_no_nonce)

lemma no_nonce_order_finalize:
  "nonce a = None \<Longrightarrow> fst (order_finalize X W fuel url a) = Some False"
  by (simp add: order_finalize_def acme_post_no_nonce split: option.splits)

lemma no_nonce_cert_download: "nonce a = None \<Longrightarrow> \<not> fst (cert_download X W a)"
  by (simp add: cert_download_def acme_post_no_nonce split: option.splits)

lemma no_nonce_cert_issue: "nonce a = None \<Longrightarrow> fst (cert_issue X W fuel a) = Some False"
  by (simp add: cert_issue_def acme_post_no_nonce split: option.splits)

lemma no_nonce_cert_revoke: "nonce a = None \<Longrightarrow> \<not> fst (cert_revoke X W f rc a)"
  by (simp add: cert_revoke_def cert_der_base64url_def call_def acme_post_no_nonce Let_def
      split: option.splits)

text \<open>
  C10. \<^verbatim>\<open>acme_get\<close> and \<^verbatim>\<open>acme_post\<close> replace the stored nonce by the result of the
  lookup of \<^verbatim>\<open>Replay-Nonce\<close> in the response they received, whatever it is: if the
  response has no such header, the nonce is \<^verbatim>\<open>NULL\<close> afterwards. A call of
  \<^verbatim>\<open>acme_post\<close> in a state \<open>b\<close> without nonce sends nothing and returns 0, and each
  function that calls \<^verbatim>\<open>acme_post\<close> fails at that call.
\<close>

theorem nonce_replaced_by_every_response:
  assumes req: "acme_get X W (Some u) a = (r, a') \<or>
                (acme_post X W (Some u) payload a = (r, a') \<and> trace a' \<noteq> trace a)"
    and resp: "w_curl W (trace a') = Some c"
    and none: "nonce b = None"
  shows "nonce a' = find_header (curl_headers c) ''Replay-Nonce'' \<and>
         fst (acme_post X W url2 payload2 b) = 0 \<and>
         trace (snd (acme_post X W url2 payload2 b)) = trace b \<and>
         nonce (snd (acme_post X W url2 payload2 b)) = None \<and>
         \<not> fst (account_new X W y b) \<and>
         \<not> fst (account_create X W url3 b) \<and>
         \<not> fst (account_retrieve X W b) \<and>
         (need_email_update X b = Some True \<longrightarrow> \<not> fst (account_update X W b)) \<and>
         \<not> fst (account_deactivate X W b) \<and>
         fst (authorization X W fuel tp au b) = Out \<and>
         fst (run_challenge X W fuel url3 ty iv tok ka b) = Some False \<and>
         fst (poll_challenge X W (Suc fuel) url3 b) = Some False \<and>
         fst (cert_issue X W fuel b) = Some False \<and>
         fst (poll_ready X W (Suc fuel) url3 b) = Some False \<and>
         fst (order_finalize X W fuel url3 b) = Some False \<and>
         fst (poll_valid X W (Suc fuel) url3 b) = Some False \<and>
         \<not> fst (cert_download X W b) \<and>
         \<not> fst (cert_revoke X W certfile reason b)"
proof -
  have "nonce a' = find_header (curl_headers c) ''Replay-Nonce''"
    using req
  proof
    assume g: "acme_get X W (Some u) a = (r, a')"
    then have "trace a' = trace a @ [Curl_get u]" "a' = snd (acme_get X W (Some u) a)"
      using acme_get_trace[of X W u a] by simp_all
    with resp show ?thesis by (simp add: acme_get_nonce)
  next
    assume p: "acme_post X W (Some u) payload a = (r, a') \<and> trace a' \<noteq> trace a"
    then have "post_sent W (Some u) payload a r a'"
      using acme_post_cases[of X W "Some u" payload a r a'] by auto
    with resp show ?thesis by (auto simp: post_sent_def)
  qed
  moreover have "fst (acme_post X W url2 payload2 b) = 0"
    "trace (snd (acme_post X W url2 payload2 b)) = trace b"
    "nonce (snd (acme_post X W url2 payload2 b)) = None"
    using none by (simp_all add: acme_post_no_nonce)
  ultimately show ?thesis
    using none
    by (simp add: no_nonce_account_new no_nonce_account_create no_nonce_account_retrieve
        no_nonce_account_update no_nonce_account_deactivate no_nonce_authorization
        no_nonce_run_challenge no_nonce_poll_challenge no_nonce_cert_issue
        no_nonce_poll_ready no_nonce_order_finalize no_nonce_poll_valid
        no_nonce_cert_download no_nonce_cert_revoke del: poll_challenge.simps
        poll_ready.simps poll_valid.simps)
qed

lemma find_header_example1:
  "find_header (header_block [''HTTP/1.1 200 OK'', ''Content-Type: application/json''])
     ''Replay-Nonce'' = None"
  by code_simp

theorem nonce_replaced_by_every_response_witness:
  "nonce (snd (acme_get (mock_ext docs1) (mock_world routes1 (Exited 0) True)
                 (Some PRODUCTION_URL) acme0)) = None \<and>
   fst (acme_post (mock_ext docs1) (mock_world routes1 (Exited 0) True)
          (Some ''https://ca/acct'') ''{}''
          (snd (acme_get (mock_ext docs1) (mock_world routes1 (Exited 0) True)
                  (Some PRODUCTION_URL) acme0))) = 0 \<and>
   \<not> fst (account_retrieve (mock_ext docs1) (mock_world routes1 (Exited 0) True)
          (snd (acme_get (mock_ext docs1) (mock_world routes1 (Exited 0) True)
                  (Some PRODUCTION_URL) acme0)))"
proof -
  let ?X = "mock_ext docs1" and ?W = "mock_world routes1 (Exited 0) True"
  let ?g = "acme_get ?X ?W (Some PRODUCTION_URL) acme0"
  let ?c = "Curldata 200
              (header_block [''HTTP/1.1 200 OK'', ''Content-Type: application/json'']) ''DIR''"
  have req: "?g = (fst ?g, snd ?g) \<or>
             (acme_post ?X ?W (Some PRODUCTION_URL) [] acme0 = (fst ?g, snd ?g) \<and>
              trace (snd ?g) \<noteq> trace acme0)"
    by simp
  have resp: "w_curl ?W (trace (snd ?g)) = Some ?c"
    by (simp add: acme_get_trace mock_world_def mock_curl_def routes1_def answer_def)
  have none: "nonce (snd ?g) = None"
    using resp by (simp add: acme_get_nonce acme_get_trace find_header_example1)
  from nonce_replaced_by_every_response[OF req resp none, of "Some ''https://ca/acct''" "''{}''"]
  show ?thesis
    by (simp add: find_header_example1)
qed

text \<open>
  C1 (as amended). For every call of \<^verbatim>\<open>acme_post\<close>: either nothing is sent, or exactly
  one request is, and then the stored nonce was not \<^verbatim>\<open>NULL\<close> before, it is the nonce
  of the protected header, and after the response the stored nonce is what the lookup
  of \<^verbatim>\<open>Replay-Nonce\<close> in the response headers returned. If the nonce is \<^verbatim>\<open>NULL\<close> at the
  start, \<^verbatim>\<open>acme_post\<close> sends nothing (it makes no request to \<^verbatim>\<open>newNonce\<close> either),
  returns 0 and leaves the nonce \<^verbatim>\<open>NULL\<close>.
\<close>

theorem signed_post_needs_nonce:
  assumes "acme_post X W url payload a = (r, a')"
  shows "(trace a' = trace a \<or>
          (\<exists>n u jws. nonce a = Some n \<and> url = Some u \<and>
             trace a' = trace a @ [Curl_post u (protected_call n u a) payload jws] \<and>
             nonce_of (protected_call n u a) = n \<and>
             (\<forall>c. w_curl W (trace a') = Some c \<longrightarrow>
                  nonce a' = find_header (curl_headers c) ''Replay-Nonce''))) \<and>
         (nonce a = None \<longrightarrow> r = 0 \<and> trace a' = trace a \<and> nonce a' = None)"
proof -
  have "trace a' = trace a \<or> post_sent W url payload a r a'"
    using acme_post_cases[OF assms] by blast
  moreover have "nonce_of (protected_call n u a) = n" for n u
    by (simp add: nonce_of_def protected_call_def split: option.splits)
  moreover have "nonce a = None \<longrightarrow> r = 0 \<and> trace a' = trace a \<and> nonce a' = None"
    using assms by (auto simp: acme_post_no_nonce)
  ultimately show ?thesis
    by (auto simp: post_sent_def)
qed


theorem signed_post_needs_nonce_witness:
  "nonce (snd (acme_post (mock_ext docs1) (mock_world routes1 (Exited 0) True)
                 (Some ''https://ca/acct'') ''{}''
                 (snd (acme_bootstrap (mock_ext docs1) (mock_world routes1 (Exited 0) True)
                         acme0)))) = Some ''n1'' \<and>
   fst (acme_post (mock_ext docs1) (mock_world routes1 (Exited 0) True)
          (Some ''https://ca/acct'') ''{}'' acme0) = 0"
proof -
  let ?X = "mock_ext docs1" and ?W = "mock_world routes1 (Exited 0) True"
  let ?a = "snd (acme_bootstrap ?X ?W acme0)"
  let ?p = "acme_post ?X ?W (Some ''https://ca/acct'') ''{}'' ?a"
  let ?q = "acme_post ?X ?W (Some ''https://ca/acct'') ''{}'' acme0"
  let ?c = "Curldata 200
              (header_block [''HTTP/1.1 200 OK'', ''Content-Type: application/json'',
                             ''Replay-Nonce: n1'', ''Location: https://ca/acct/1'']) ''ACCT''"
  have sent: "trace (snd ?p) \<noteq> trace ?a" by code_simp
  have resp: "w_curl ?W (trace (snd ?p)) = Some ?c" by code_simp
  have hdr: "find_header (curl_headers ?c) ''Replay-Nonce'' = Some ''n1''" by code_simp
  have "?p = (fst ?p, snd ?p)" by simp
  from signed_post_needs_nonce[OF this] sent resp hdr
  have 1: "nonce (snd ?p) = Some ''n1''" by auto
  have none: "nonce acme0 = None" by (simp add: acme0_def)
  have "?q = (fst ?q, snd ?q)" by simp
  from signed_post_needs_nonce[OF this] none
  have 2: "fst ?q = 0" by blast
  from 1 2 show ?thesis by blast
qed

text \<open>
  C1 as the specification states it fails. After a response without a
  \<^verbatim>\<open>Replay-Nonce\<close> header (here the answer to the request that deactivates the
  account) the stored nonce is \<^verbatim>\<open>NULL\<close>; the next call of \<^verbatim>\<open>acme_post\<close> makes no request
  at all, and none to the \<^verbatim>\<open>newNonce\<close> URL of the directory.
\<close>

theorem no_refill_from_newNonce_counterexample:
  "nonce (snd (main (mock_ext docs1) (mock_world routes1 (Exited 0) True) 0 []
                 [''deactivate''])) = None \<and>
   json_find_string (mock_ext docs1)
     (dir (snd (main (mock_ext docs1) (mock_world routes1 (Exited 0) True) 0 []
                  [''deactivate'']))) ''newNonce'' = Some ''https://ca/nonce'' \<and>
   fst (acme_post (mock_ext docs1) (mock_world routes1 (Exited 0) True)
          (Some ''https://ca/order'') ''{}''
          (snd (main (mock_ext docs1) (mock_world routes1 (Exited 0) True) 0 []
                  [''deactivate'']))) = 0 \<and>
   trace (snd (acme_post (mock_ext docs1) (mock_world routes1 (Exited 0) True)
                 (Some ''https://ca/order'') ''{}''
                 (snd (main (mock_ext docs1) (mock_world routes1 (Exited 0) True) 0 []
                         [''deactivate''])))) =
   trace (snd (main (mock_ext docs1) (mock_world routes1 (Exited 0) True) 0 []
                 [''deactivate'']))"
  by code_simp

subsection \<open>The account that exists\<close>



lemma account_new_exists:
  assumes url: "json_find_string X (dir a) ''newAccount'' = Some url"
    and post: "acme_post X W (Some url) only_return_existing a = (200, a1)"
  shows "account_new X W y a =
           (False,
            (case find_header (the_headers a1) ''Location'' of
               None \<Rightarrow> warnx ''account exists but location not found'' (a1\<lparr>kid := None\<rparr>)
             | Some k \<Rightarrow> warnx (''Account already exists at '' @ k) (a1\<lparr>kid := Some k\<rparr>)))"
  using url post
  by (simp add: account_new_def only_return_existing_def Let_def split: option.splits)

lemma main_new:
  assumes "w_crypto_init W" "w_curl_global_init W"
    and "options_loop X optv opts0 acme0 = (True, f, a1)" "\<not> opt_version f"
    and "main_args W ''new'' rest a1 = (True, rf, a2)"
    and "main_setup W f ''new'' a2 = (True, a3)"
    and "acme_bootstrap X W a3 = (True, a4)"
  shows "main X W fuel optv (''new'' # rest) =
           (Some (exit_code (fst (account_new X W (opt_yes f) a4))),
            snd (account_new X W (opt_yes f) a4))"
  using assms by (simp add: main_def main_run_def split: prod.splits)

text \<open>
  C8. When the run of the action \<^verbatim>\<open>new\<close> gets to the first request of
  \<^verbatim>\<open>account_new\<close> (the options and arguments are accepted, the directories and the key
  are there, the directory is fetched) and that request returns the status 200, the
  process exits with \<^verbatim>\<open>EXIT_FAILURE\<close>, which is not 0; no further call is made; and
  the last line written by \<^verbatim>\<open>warnx\<close> reports the value of the \<^verbatim>\<open>Location\<close> header, which
  is also stored in \<^verbatim>\<open>kid\<close> (or says that there is no such header).
\<close>

theorem new_fails_on_existing_account:
  assumes init: "w_crypto_init W" "w_curl_global_init W"
    and opts: "options_loop X optv opts0 acme0 = (True, f, a1)" "\<not> opt_version f"
    and args: "main_args W ''new'' rest a1 = (True, rf, a2)"
    and prep: "main_setup W f ''new'' a2 = (True, a3)"
    and boot: "acme_bootstrap X W a3 = (True, a4)"
    and url: "json_find_string X (dir a4) ''newAccount'' = Some url"
    and post: "acme_post X W (Some url) only_return_existing a4 = (200, a5)"
    and run: "main X W fuel optv (''new'' # rest) = (rc, a')"
  shows "rc = Some EXIT_FAILURE \<and> EXIT_FAILURE \<noteq> 0 \<and>
         \<not> fst (account_new X W (opt_yes f) a4) \<and>
         trace a' = trace a5 \<and>
         kid a' = find_header (the_headers a5) ''Location'' \<and>
         warnings a' = warnings a5 @
           [case find_header (the_headers a5) ''Location'' of
              None \<Rightarrow> ''account exists but location not found''
            | Some k \<Rightarrow> ''Account already exists at '' @ k]"
proof -
  have m: "main X W fuel optv (''new'' # rest) =
           (Some (exit_code (fst (account_new X W (opt_yes f) a4))),
            snd (account_new X W (opt_yes f) a4))"
    by (rule main_new[OF init opts args prep boot])
  show ?thesis
    using run unfolding m account_new_exists[OF url post]
    by (auto simp: exit_code_def EXIT_FAILURE_def warnx_def split: option.splits)
qed

lemma pair_fst_snd: "fst p = b \<Longrightarrow> p = (b, snd p)"
  by (cases p) simp

theorem new_fails_on_existing_account_witness:
  "fst (main (mock_ext docs1) (mock_world routes1 (Exited 0) True) 0 [] [''new'']) =
     Some EXIT_FAILURE \<and>
   kid (snd (main (mock_ext docs1) (mock_world routes1 (Exited 0) True) 0 [] [''new''])) =
     Some ''https://ca/acct/1'' \<and>
   warnings (snd (main (mock_ext docs1) (mock_world routes1 (Exited 0) True) 0 [] [''new''])) =
     [''Account already exists at https://ca/acct/1'']"
proof -
  let ?X = "mock_ext docs1" and ?W = "mock_world routes1 (Exited 0) True"
  let ?a3 = "snd (main_setup ?W opts0 ''new'' acme0)"
  let ?a4 = "snd (acme_bootstrap ?X ?W ?a3)"
  let ?a5 = "snd (acme_post ?X ?W (Some ''https://ca/acct'') only_return_existing ?a4)"
  let ?m = "main ?X ?W 0 [] [''new'']"
  have init: "w_crypto_init ?W" "w_curl_global_init ?W"
    by (simp_all add: mock_world_def)
  have opts: "options_loop ?X [] opts0 acme0 = (True, opts0, acme0)" "\<not> opt_version opts0"
    by (simp_all add: opts0_def)
  have args: "main_args ?W ''new'' [] acme0 = (True, None, acme0)"
    by (simp add: main_args_def)
  have prep: "main_setup ?W opts0 ''new'' acme0 = (True, ?a3)"
    by (rule pair_fst_snd) code_simp
  have boot: "acme_bootstrap ?X ?W ?a3 = (True, ?a4)"
    by (rule pair_fst_snd) code_simp
  have url: "json_find_string ?X (dir ?a4) ''newAccount'' = Some ''https://ca/acct''"
    by code_simp
  have post: "acme_post ?X ?W (Some ''https://ca/acct'') only_return_existing ?a4 = (200, ?a5)"
    by (rule pair_fst_snd) code_simp
  have run: "?m = (fst ?m, snd ?m)" by simp
  have loc: "find_header (the_headers ?a5) ''Location'' = Some ''https://ca/acct/1''"
    by code_simp
  have w: "warnings ?a5 = []" by code_simp
  from new_fails_on_existing_account[OF init opts args prep boot url post run]
  show ?thesis by (simp add: loc w)
qed


subsection \<open>Runs that keep the session\<close>

lemma evs_iff:
  "evs X T a a' =
     (key a' = key a \<and> kid a' = kid a \<and> hook a' = hook a \<and> dir a' = dir a \<and>
      (\<exists>es. trace a' = trace a @ es \<and> list_all (ev_ok X (kid a) (key a) T) es))"
  by (auto simp: evs_def new_events_def prefix_def)

lemma evs_refl [simp]: "evs X T a a"
  by (simp add: evs_iff)

lemma evs_trans: "evs X T a b \<Longrightarrow> evs X T b c \<Longrightarrow> evs X T a c"
  by (auto simp: evs_iff)

lemma evs_same:
  "key a' = key a \<Longrightarrow> kid a' = kid a \<Longrightarrow> hook a' = hook a \<Longrightarrow> dir a' = dir a \<Longrightarrow>
   trace a' = trace a \<Longrightarrow> evs X T a a'"
  by (simp add: evs_iff)

lemma evs_call: "ev_ok X (kid a) (key a) T e \<Longrightarrow> evs X T a (call e a)"
  by (simp add: evs_iff call_def)

lemma ev_ok_weaken: "ev_ok X kd pk None e \<Longrightarrow> ev_ok X kd pk T e"
  by (cases e) (simp_all add: ev_ok_def)

lemma evs_weaken: "evs X None a a' \<Longrightarrow> evs X T a a'"
  by (auto simp: evs_iff list_all_iff intro: ev_ok_weaken)

lemma post_form_ok_call: "post_form_ok (kid a) (key a) u (protected_call n u a)"
  by (simp add: post_form_ok_def protected_call_def nonempty_def split: option.splits)

lemma same_session_keys:
  "same_session a a' \<Longrightarrow> key a' = key a \<and> kid a' = kid a \<and> hook a' = hook a \<and> dir a' = dir a"
  by (simp add: same_session_def)

lemma acme_post_evs:
  assumes "acme_post X W url payload a = (r, a')"
  shows "evs X T a a'"
proof -
  have s: "same_session a a'"
    using acme_post_session[of a X W url payload] assms by simp
  from acme_post_cases[OF assms]
  have "\<exists>es. trace a' = trace a @ es \<and> list_all (ev_ok X (kid a) (key a) T) es"
    by (auto simp: post_sent_def ev_ok_def post_form_ok_call)
  with same_session_keys[OF s] show ?thesis by (simp add: evs_iff)
qed

lemma acme_get_evs:
  assumes "acme_get X W url a = (r, a')"
  shows "evs X T a a'"
proof -
  have s: "same_session a a'"
    using acme_get_session[of a X W url] assms by simp
  have "\<exists>es. trace a' = trace a @ es \<and> list_all (ev_ok X (kid a) (key a) T) es"
    using assms
    by (auto simp: acme_get_def call_def clear_response_def fill_response_def
        store_response_def Let_def ev_ok_def split: option.splits)
  with same_session_keys[OF s] show ?thesis by (simp add: evs_iff)
qed

lemma sleep_evs [simp]: "evs X T a (sleep n a)"
  by (simp add: sleep_def evs_call ev_ok_def)

lemma evs_json [simp]:
  "evs X T a (a\<lparr>json := j\<rparr>)"
  "evs X T a (a\<lparr>order := od, json := j\<rparr>)"
  by (simp_all add: evs_iff)

lemma poll_challenge_evs:
  "poll_challenge X W fuel url a = (r, a') \<Longrightarrow> evs X T a a'"
proof (induction fuel arbitrary: a)
  case 0
  then show ?case by simp
next
  case (Suc fuel)
  obtain r1 a1 where p: "acme_post X W (Some url) [] a = (r1, a1)"
    by (cases "acme_post X W (Some url) [] a")
  have e1: "evs X T a a1" by (rule acme_post_evs[OF p])
  show ?case
    using Suc.prems p e1 Suc.IH[of "sleep 5 a1"] evs_trans[OF e1 sleep_evs]
    by (auto simp: Let_def split: if_splits intro: evs_trans)
qed



lemma hook_run_evs:
  "key_authorization X ty tok tp = Some ka \<Longrightarrow> hook_run W h m ty iv tok ka a = (r, a') \<Longrightarrow>
   evs X (Some tp) a a'"
  by (auto simp: hook_run_def Let_def ev_ok_def intro!: evs_call)

lemma present_challenge_evs:
  "key_authorization X ty tok tp = Some ka \<Longrightarrow> present_challenge W ty iv tok ka a = (d, a') \<Longrightarrow>
   evs X (Some tp) a a'"
  by (auto simp: present_challenge_def Let_def ev_ok_def split: if_splits prod.splits
      dest: hook_run_evs intro!: evs_call)

lemma run_challenge_evs:
  assumes ka: "key_authorization X ty tok tp = Some ka"
    and run: "run_challenge X W fuel url ty iv tok ka a = (d, a')"
  shows "evs X (Some tp) a a'"
proof -
  obtain r1 a1 where p: "acme_post X W (Some url) ''{}'' a = (r1, a1)"
    by (cases "acme_post X W (Some url) ''{}'' a")
  obtain d2 a2 where q: "(if r1 \<noteq> 200 then (Some False, a1) else poll_challenge X W fuel url a1) = (d2, a2)"
    by (cases "(if r1 \<noteq> 200 then (Some False, a1) else poll_challenge X W fuel url a1)")
  have e1: "evs X (Some tp) a a1" by (rule acme_post_evs[OF p])
  have e2: "evs X (Some tp) a1 a2"
    using q by (auto split: if_splits intro: poll_challenge_evs)
  have e12: "evs X (Some tp) a a2" by (rule evs_trans[OF e1 e2])
  show ?thesis
    using run p q e12 hook_run_evs[OF ka]
    by (auto simp: run_challenge_def split: option.splits if_splits prod.splits
        intro: evs_trans)
qed

lemma challenge_evs:
  "challenge X W fuel tp iv ch a = (f, a') \<Longrightarrow> evs X (Some tp) a a'"
  by (auto simp: challenge_def split: if_splits option.splits prod.splits decision.splits
      dest: present_challenge_evs run_challenge_evs intro: evs_trans)

lemma challenges_evs:
  "challenges X W fuel tp iv chs a = (f, a') \<Longrightarrow> evs X (Some tp) a a'"
proof (induction chs arbitrary: a)
  case Nil
  then show ?case by simp
next
  case (Cons ch chs)
  obtain f1 a1 where c: "challenge X W fuel tp iv ch a = (f1, a1)"
    by (cases "challenge X W fuel tp iv ch a")
  have e1: "evs X (Some tp) a a1" by (rule challenge_evs[OF c])
  show ?case
    using Cons.prems c e1 Cons.IH[of a1]
    by (cases f1) (auto intro: evs_trans)
qed



lemma authorization_evs:
  assumes "authorization X W fuel tp au a = (f, a')"
  shows "evs X (Some tp) a a'"
proof (cases au)
  case (JSON_STRING u)
  obtain r1 a1 where p: "acme_post X W (Some u) [] a = (r1, a1)"
    by (cases "acme_post X W (Some u) [] a")
  have e1: "evs X (Some tp) a a1" by (rule acme_post_evs[OF p])
  have e2: "evs X (Some tp) a a2"
    if "challenges X W fuel tp iv chs (a1\<lparr>json := None\<rparr>) = (f2, a2)" for iv chs f2 a2
    using challenges_evs[OF that] e1 evs_json(1)[of X "Some tp" a1 None]
    by (blast intro: evs_trans)
  show ?thesis
    using assms p e1 e2 unfolding authorization_def JSON_STRING
    by (auto simp: Let_def split: if_splits option.splits json.splits prod.splits flow.splits)
qed (use assms in \<open>auto simp: authorization_def\<close>)

lemma authorizations_evs:
  "authorizations X W fuel tp aus a = (r, a') \<Longrightarrow> evs X (Some tp) a a'"
proof (induction aus arbitrary: a)
  case Nil
  then show ?case by simp
next
  case (Cons au aus)
  obtain f1 a1 where c: "authorization X W fuel tp au a = (f1, a1)"
    by (cases "authorization X W fuel tp au a")
  have e1: "evs X (Some tp) a a1" by (rule authorization_evs[OF c])
  show ?case
    using Cons.prems c e1 Cons.IH[of a1]
    by (cases f1) (auto intro: evs_trans)
qed

lemma authorize_evs:
  "authorize X W fuel a = (r, a') \<Longrightarrow> evs X (jws_thumbprint X (key a)) a a'"
  by (auto simp: authorize_def split: option.splits json.splits dest: authorizations_evs)

lemma poll_ready_evs:
  "poll_ready X W fuel url a = (r, a') \<Longrightarrow> evs X T a a'"
proof (induction fuel arbitrary: a)
  case 0
  then show ?case by simp
next
  case (Suc fuel)
  obtain r1 a1 where p: "acme_post X W (Some url) [] a = (r1, a1)"
    by (cases "acme_post X W (Some url) [] a")
  have e1: "evs X T a a1" by (rule acme_post_evs[OF p])
  have e2: "evs X T a (a1\<lparr>order := od, json := j\<rparr>)" for od j
    using e1 evs_json(2)[of X T a1] by (blast intro: evs_trans)
  show ?case
    using Suc.prems p e1 e2 Suc.IH[of "sleep 5 a1"] evs_trans[OF e1 sleep_evs]
    by (auto simp: Let_def split: if_splits intro: evs_trans)
qed

lemma poll_valid_evs:
  "poll_valid X W fuel url a = (r, a') \<Longrightarrow> evs X T a a'"
proof (induction fuel arbitrary: a)
  case 0
  then show ?case by simp
next
  case (Suc fuel)
  obtain r1 a1 where p: "acme_post X W (Some url) [] a = (r1, a1)"
    by (cases "acme_post X W (Some url) [] a")
  have e1: "evs X T a a1" by (rule acme_post_evs[OF p])
  have e2: "evs X T a (a1\<lparr>order := od, json := j\<rparr>)" for od j
    using e1 evs_json(2)[of X T a1] by (blast intro: evs_trans)
  show ?case
    using Suc.prems p e1 e2 Suc.IH[of "sleep 5 a1"] evs_trans[OF e1 sleep_evs]
    by (auto simp: Let_def split: if_splits intro: evs_trans)
qed

lemma cert_save_evs: "cert_save W b d a = (ok, a') \<Longrightarrow> evs X T a a'"
  by (auto simp: cert_save_def Let_def ev_ok_def intro!: evs_call)

lemma cert_download_evs: "cert_download X W a = (ok, a') \<Longrightarrow> evs X T a a'"
  by (auto simp: cert_download_def split: option.splits prod.splits if_splits
      dest: acme_post_evs[where T = T] cert_save_evs[where X = X and T = T] intro: evs_trans)

lemma order_ready_evs:
  "order_ready X W fuel url a = (r, a') \<Longrightarrow> evs X (jws_thumbprint X (key a)) a a'"
proof -
  assume run: "order_ready X W fuel url a = (r, a')"
  obtain r1 a1 where p: "authorize X W fuel a = (r1, a1)"
    by (cases "authorize X W fuel a")
  have e1: "evs X (jws_thumbprint X (key a)) a a1" by (rule authorize_evs[OF p])
  show ?thesis
    using run p e1
    by (auto simp: order_ready_def split: option.splits bool.splits
        dest: poll_ready_evs[where T = "jws_thumbprint X (key a)"] intro: evs_trans)
qed

lemma order_finalize_evs:
  assumes run: "order_finalize X W fuel url a = (r, a')"
  shows "evs X T a a'"
proof (cases "csr_gen X (names a) (dkey a)")
  case None
  with run show ?thesis by (simp add: order_finalize_def)
next
  case csr: (Some csr)
  show ?thesis
  proof (cases "json_find_string X (order a) ''finalize''")
    case None
    with run csr show ?thesis by (simp add: order_finalize_def)
  next
    case (Some fin)
    obtain r1 a1 where p: "acme_post X W (Some fin) (''{\"csr\": \"'' @ csr @ ''\"}'') a = (r1, a1)"
      by (cases "acme_post X W (Some fin) (''{\"csr\": \"'' @ csr @ ''\"}'') a")
    have e1: "evs X T a a1" by (rule acme_post_evs[OF p])
    obtain r2 a2 where q: "poll_valid X W fuel url a1 = (r2, a2)"
      by (cases "poll_valid X W fuel url a1")
    have e2: "evs X T a a2" using e1 poll_valid_evs[OF q] by (blast intro: evs_trans)
    obtain ok a3 where d: "cert_download X W a2 = (ok, a3)"
      by (cases "cert_download X W a2")
    have e3: "evs X T a a3" using e2 cert_download_evs[OF d] by (blast intro: evs_trans)
    show ?thesis
      using run csr Some p q d e1 e2 e3
      by (auto simp: order_finalize_def split: if_splits option.splits bool.splits)
  qed
qed



lemma cert_issue_evs:
  assumes run: "cert_issue X W fuel a = (r, a')"
  shows "evs X (jws_thumbprint X (key a)) a a'"
proof (cases "json_find_string X (dir a) ''newOrder''")
  case None
  with run show ?thesis by (simp add: cert_issue_def)
next
  case (Some url)
  let ?T = "jws_thumbprint X (key a)"
  obtain r1 a1 where p: "acme_post X W (Some url) (identifiers (names a)) a = (r1, a1)"
    by (cases "acme_post X W (Some url) (identifiers (names a)) a")
  have e1: "evs X ?T a a1" by (rule acme_post_evs[OF p])
  let ?a2 = "a1\<lparr>order := json a1, json := None\<rparr>"
  have k: "key ?a2 = key a" using e1 by (simp add: evs_iff)
  have e2: "evs X ?T a ?a2"
    using e1 evs_json(2)[of X ?T a1] by (blast intro: evs_trans)
  have e3: "evs X ?T a a3" if "order_ready X W fuel ou ?a2 = (r3, a3)" for ou r3 a3
    using order_ready_evs[OF that] e2 unfolding k by (blast intro: evs_trans)
  have e4: "evs X ?T a a4" if "evs X ?T a a3" "order_finalize X W fuel ou a3 = (r4, a4)"
    for ou a3 r4 a4
    using order_finalize_evs[OF that(2), of ?T] that(1) by (blast intro: evs_trans)
  show ?thesis
    using run Some p e1 e2
    by (auto simp: cert_issue_def Let_def split: if_splits option.splits bool.splits prod.splits
        intro: e3 e4)
qed

lemma cert_revoke_evs: "cert_revoke X W certfile reason a = (ok, a') \<Longrightarrow> evs X T a a'"
proof -
  assume run: "cert_revoke X W certfile reason a = (ok, a')"
  have e1: "evs X T a (call (Cert_der certfile) a)"
    by (simp add: evs_call ev_ok_def)
  show ?thesis
    using run e1
    by (auto simp: cert_revoke_def cert_der_base64url_def Let_def
        split: option.splits prod.splits if_splits
        dest!: acme_post_evs[where T = T] intro: evs_trans)
qed

lemma account_update_evs: "account_update X W a = (ok, a') \<Longrightarrow> evs X T a a'"
  by (auto simp: account_update_def split: option.splits bool.splits prod.splits if_splits
      dest!: acme_post_evs[where T = T])

lemma account_deactivate_evs: "account_deactivate X W a = (ok, a') \<Longrightarrow> evs X T a a'"
  by (auto simp: account_deactivate_def split: prod.splits if_splits
      dest!: acme_post_evs[where T = T])



subsection \<open>The account phase\<close>

lemma acme_get_gets:
  assumes "acme_get X W url a = (r, a')"
  shows "key a' = key a \<and> kid a' = kid a \<and> hook a' = hook a \<and> dir a' = dir a \<and>
         (\<exists>es. trace a' = trace a @ es \<and> list_all (acct_event X d) es)"
proof -
  have s: "same_session a a'"
    using acme_get_session[of a X W url] assms by simp
  have "\<exists>es. trace a' = trace a @ es \<and> list_all (acct_event X d) es"
    using assms
    by (auto simp: acme_get_def call_def clear_response_def fill_response_def
        store_response_def Let_def acct_event_def split: option.splits)
  with same_session_keys[OF s] show ?thesis by simp
qed

lemma acme_bootstrap_gets:
  assumes "acme_bootstrap X W a = (ok, a')"
  shows "key a' = key a \<and> kid a' = kid a \<and> hook a' = hook a \<and>
         (\<exists>es. trace a' = trace a @ es \<and> list_all (acct_event X d) es)"
proof -
  obtain r1 a1 where g1: "acme_get X W (Some (directory a)) a = (r1, a1)"
    by (cases "acme_get X W (Some (directory a)) a")
  note 1 = acme_get_gets[OF g1, of d]
  have 2: "key a2 = key a \<and> kid a2 = kid a \<and> hook a2 = hook a \<and>
           (\<exists>es. trace a2 = trace a @ es \<and> list_all (acct_event X d) es)"
    if "acme_get X W (Some u) (a1\<lparr>dir := json a1, json := None\<rparr>) = (r2, a2)" for u r2 a2
    using acme_get_gets[OF that, of d] 1 by auto
  show ?thesis
    using assms g1 1 2
    by (auto simp: acme_bootstrap_def Let_def split: if_splits option.splits prod.splits)
qed

lemma acme_post_acct:
  assumes "acme_post X W (Some u) payload a = (r, a')"
    and "\<not> nonempty (kid a)" and "json_find_string X (dir a) ''newAccount'' = Some u"
  shows "key a' = key a \<and> kid a' = kid a \<and> hook a' = hook a \<and> dir a' = dir a \<and>
         (\<exists>es. trace a' = trace a @ es \<and> list_all (acct_event X (dir a)) es)"
proof -
  have s: "same_session a a'"
    using acme_post_session[of a X W "Some u" payload] assms(1) by simp
  have "protected_call n u a = Protected_jwk n u (key a)" for n
    using assms(2) by (simp add: protected_call_def nonempty_def split: option.splits)
  with acme_post_cases[OF assms(1)] assms(3)
  have "\<exists>es. trace a' = trace a @ es \<and> list_all (acct_event X (dir a)) es"
    by (auto simp: post_sent_def acct_event_def jwk_phase_def)
  with same_session_keys[OF s] show ?thesis by simp
qed

lemma acct_run_iff:
  "acct_run X a a' =
     (key a' = key a \<and> hook a' = hook a \<and> dir a' = dir a \<and>
      (\<exists>es. trace a' = trace a @ es \<and> list_all (acct_event X (dir a)) es))"
  by (auto simp: acct_run_def new_events_def prefix_def)

lemma acct_run_refl [simp]: "acct_run X a a"
  by (simp add: acct_run_iff)

lemma acct_run_trans: "acct_run X a b \<Longrightarrow> acct_run X b c \<Longrightarrow> acct_run X a c"
  by (auto simp: acct_run_iff)

lemma acct_run_warnx [simp]: "acct_run X a (warnx m a)"
  by (simp add: acct_run_iff warnx_def)

lemma acct_run_kid [simp]: "acct_run X a (a\<lparr>kid := k\<rparr>)"
  by (simp add: acct_run_iff)

lemma acme_post_acct_run:
  assumes "acme_post X W (Some u) payload a = (r, a')"
    and "\<not> nonempty (kid a)" and "json_find_string X (dir a) ''newAccount'' = Some u"
  shows "acct_run X a a' \<and> kid a' = kid a"
  using acme_post_acct[OF assms] by (simp add: acct_run_iff)

lemma accept_terms_acct_run:
  "accept_terms W terms y a = (ok, a') \<Longrightarrow> acct_run X a a' \<and> kid a' = kid a"
  by (auto simp: accept_terms_def Let_def acct_run_iff call_def warnx_def acct_event_def
      split: option.splits if_splits)

lemma account_create_acct_run:
  assumes run: "account_create X W u a = (ok, a')"
    and kd: "\<not> nonempty (kid a)" and url: "json_find_string X (dir a) ''newAccount'' = Some u"
  shows "acct_run X a a'"
proof -
  have p: "acct_run X a a1" if "acme_post X W (Some u) payload a = (r1, a1)" for payload r1 a1
    using acme_post_acct_run[OF that kd url] by simp
  have q: "acct_run X a (warnx m (a1\<lparr>kid := k\<rparr>))" "acct_run X a (a1\<lparr>kid := k\<rparr>)"
    "acct_run X a (warnx m a1)"
    if "acct_run X a a1" for a1 m k
    using that by (auto simp: acct_run_iff warnx_def)
  show ?thesis
    using run
    by (auto simp: account_create_def Let_def split: if_splits option.splits prod.splits
        intro: p q dest!: p)
qed

lemma account_new_acct_run:
  assumes run: "account_new X W y a = (ok, a')" and kd: "\<not> nonempty (kid a)"
  shows "acct_run X a a'"
proof (cases "json_find_string X (dir a) ''newAccount''")
  case None
  with run show ?thesis by (auto simp: account_new_def)
next
  case (Some u)
  obtain r1 a1 where p: "acme_post X W (Some u) ''{\"onlyReturnExisting\":true}'' a = (r1, a1)"
    by (cases "acme_post X W (Some u) ''{\"onlyReturnExisting\":true}'' a")
  note 1 = acme_post_acct_run[OF p kd Some]
  have q: "acct_run X a (warnx m (a1\<lparr>kid := k\<rparr>))" "acct_run X a (warnx m a1)" for m k
    using 1 by (auto simp: acct_run_iff warnx_def)
  have t: "acct_run X a a3"
    if "accept_terms W terms y a1 = (True, a2)" "account_create X W u a2 = (ok, a3)"
    for terms a2 a3
  proof -
    note 2 = accept_terms_acct_run[OF that(1), of X]
    have "\<not> nonempty (kid a2)" "json_find_string X (dir a2) ''newAccount'' = Some u"
      using 1 2 kd Some by (simp_all add: acct_run_iff)
    from account_create_acct_run[OF that(2) this] 1 2 show ?thesis
      by (blast intro: acct_run_trans)
  qed
  have t': "acct_run X a a2" if "accept_terms W terms y a1 = (False, a2)" for terms a2
    using accept_terms_acct_run[OF that, of X] 1 by (blast intro: acct_run_trans)
  show ?thesis
    using run Some p
    by (auto simp: account_new_def Let_def split: if_splits option.splits prod.splits bool.splits
        intro: q t t')
qed

lemma account_retrieve_acct_run:
  assumes run: "account_retrieve X W a = (ok, a')" and kd: "\<not> nonempty (kid a)"
  shows "acct_run X a a' \<and> (ok \<longrightarrow> kid a' \<noteq> None)"
proof (cases "json_find_string X (dir a) ''newAccount''")
  case None
  with run show ?thesis by (auto simp: account_retrieve_def)
next
  case (Some u)
  obtain r1 a1 where p: "acme_post X W (Some u) ''{\"onlyReturnExisting\":true}'' a = (r1, a1)"
    by (cases "acme_post X W (Some u) ''{\"onlyReturnExisting\":true}'' a")
  note 1 = acme_post_acct_run[OF p kd Some]
  have q: "acct_run X a (a1\<lparr>kid := k\<rparr>)"
    "acct_run X a (a1\<lparr>kid := k, account_obj := j, json := j'\<rparr>)" for k j j'
    using 1 by (auto simp: acct_run_iff)
  show ?thesis
    using run Some p 1 q
    by (auto simp: account_retrieve_def Let_def split: if_splits option.splits)
qed



subsection \<open>The protocol of the hook\<close>

lemma scan_append:
  "scan W pre st (es1 @ es2) =
     (case scan W pre st es1 of None \<Rightarrow> None | Some st' \<Rightarrow> scan W (pre @ es1) st' es2)"
proof (induction es1 arbitrary: pre st)
  case Nil
  show ?case by simp
next
  case (Cons e es1)
  show ?case
    by (simp add: Cons.IH split: option.splits)
qed

lemma scan_no_hook:
  "list_all (ev_ok X kd pk None) es \<Longrightarrow> st \<noteq> Dead \<Longrightarrow> scan W pre st es = Some st"
proof (induction es arbitrary: pre)
  case Nil
  show ?case by simp
next
  case (Cons e es)
  then show ?case by (cases e) (simp_all add: ev_ok_def hook_step_def)
qed

lemma hooks_iff:
  "hooks W a a' st st' = (\<exists>es. trace a' = trace a @ es \<and> scan W (trace a) st es = Some st')"
  by (auto simp: hooks_def new_events_def prefix_def)

lemma hooks_refl [simp]: "hooks W a a st st"
  by (simp add: hooks_iff)

lemma hooks_trans: "hooks W a b st st' \<Longrightarrow> hooks W b c st' st'' \<Longrightarrow> hooks W a c st st''"
  by (auto simp: hooks_iff scan_append)

lemma hooks_same: "trace a' = trace a \<Longrightarrow> hooks W a a' st st"
  by (simp add: hooks_iff)

lemma evs_None_hooks: "evs X None a a' \<Longrightarrow> st \<noteq> Dead \<Longrightarrow> hooks W a a' st st"
  by (auto simp: evs_iff hooks_iff intro: scan_no_hook)

lemma evs_hook: "evs X T a a' \<Longrightarrow> hook a' = hook a"
  by (simp add: evs_iff)

lemma hook_run_begin_hooks:
  "hook_run W h ''begin'' ty iv tok ka a = (r, a') \<Longrightarrow>
   hooks W a a' Closed
     (if r < 0 then Dead else if r > 0 then Closed else Opened (Attempt h ty iv tok ka))"
  by (auto simp: hook_run_def Let_def hooks_iff call_def hook_step_def)

lemma hook_run_end_hooks:
  "m = ''done'' \<or> m = ''failed'' \<Longrightarrow> hook_run W h m ty iv tok ka a = (r, a') \<Longrightarrow>
   hooks W a a' (Opened (Attempt h ty iv tok ka)) Closed"
  by (auto simp: hook_run_def Let_def hooks_iff call_def hook_step_def)

lemma present_challenge_hooks:
  assumes "present_challenge W ty iv tok ka a = (d, a')"
  shows "hooks W a a' Closed
           (case d of Fatal \<Rightarrow> Dead | Decline \<Rightarrow> Closed | Accept \<Rightarrow> attempt_of a ty iv tok ka) \<and>
         hook a' = hook a"
proof (cases "nonempty (hook a)")
  case True
  obtain r a1 where h: "hook_run W (str (hook a)) ''begin'' ty iv tok ka a = (r, a1)"
    by (cases "hook_run W (str (hook a)) ''begin'' ty iv tok ka a")
  have "hook a1 = hook a" using h by (auto simp: hook_run_def Let_def call_def)
  with assms True h hook_run_begin_hooks[OF h] show ?thesis
    by (auto simp: present_challenge_def attempt_of_def split: if_splits)
next
  case False
  with assms show ?thesis
    by (auto simp: present_challenge_def attempt_of_def Let_def hooks_iff call_def
        hook_step_def split: if_splits)
qed

lemma run_challenge_hooks:
  assumes run: "run_challenge X W fuel url ty iv tok ka a = (d, a')"
  shows "hooks W a a' (attempt_of a ty iv tok ka)
           (if d = None then attempt_of a ty iv tok ka else Closed)"
proof -
  let ?st = "attempt_of a ty iv tok ka"
  obtain r1 a1 where p: "acme_post X W (Some url) ''{}'' a = (r1, a1)"
    by (cases "acme_post X W (Some url) ''{}'' a")
  obtain d2 a2 where q: "(if r1 \<noteq> 200 then (Some False, a1) else poll_challenge X W fuel url a1) = (d2, a2)"
    by (cases "(if r1 \<noteq> 200 then (Some False, a1) else poll_challenge X W fuel url a1)")
  have e1: "evs X None a a1" by (rule acme_post_evs[OF p])
  have e2: "evs X None a1 a2"
    using q by (auto split: if_splits intro: poll_challenge_evs)
  have e12: "evs X None a a2" by (rule evs_trans[OF e1 e2])
  have nd: "?st \<noteq> Dead" by (simp add: attempt_of_def)
  have h12: "hooks W a a2 ?st ?st" by (rule evs_None_hooks[OF e12 nd])
  have hk: "hook a2 = hook a" by (rule evs_hook[OF e12])
  show ?thesis
  proof (cases d2)
    case None
    with run p q h12 show ?thesis by (simp add: run_challenge_def)
  next
    case (Some c)
    show ?thesis
    proof (cases "nonempty (hook a)")
      case False
      with run p q h12 Some hk show ?thesis
        by (auto simp: run_challenge_def attempt_of_def)
    next
      case True
      let ?m = "if c then ''done'' else ''failed''"
      obtain r3 a3 where h: "hook_run W (str (hook a)) ?m ty iv tok ka a2 = (r3, a3)"
        by (cases "hook_run W (str (hook a)) ?m ty iv tok ka a2")
      have "hooks W a2 a3 ?st Closed"
        using hook_run_end_hooks[OF _ h] True by (auto simp: attempt_of_def)
      with h12 have "hooks W a a3 ?st Closed" by (rule hooks_trans)
      with run p q Some True hk h show ?thesis
        by (auto simp: run_challenge_def)
    qed
  qed
qed



lemma hook_end_Closed [simp]: "hook_end Closed f p"
  by (simp add: hook_end_def is_open_def)

lemma challenge_hooks:
  assumes run: "challenge X W fuel tp iv ch a = (f, a')"
  shows "\<exists>st. hooks W a a' Closed st \<and> hook_end st (f = Out) (f = Polling)"
proof (cases "json_compare_string X (Some ch) ''status'' ''pending'' \<noteq> 0")
  case True
  with run have "f = Next" "a' = a" by (simp_all add: challenge_def)
  then show ?thesis by (intro exI[of _ Closed]) simp
next
  case pending: False
  show ?thesis
  proof (cases "\<exists>ty url tok ka. json_find_string X (Some ch) ''type'' = Some ty \<and>
                   json_find_string X (Some ch) ''url'' = Some url \<and>
                   json_find_string X (Some ch) ''token'' = Some tok \<and>
                   key_authorization X ty tok tp = Some ka")
    case False
    with run pending have "f = Out" "a' = a"
      by (auto simp: challenge_def split: option.splits)
    then show ?thesis by (intro exI[of _ Closed]) simp
  next
    case True
    then obtain ty url tok ka where
      fields: "json_find_string X (Some ch) ''type'' = Some ty"
        "json_find_string X (Some ch) ''url'' = Some url"
        "json_find_string X (Some ch) ''token'' = Some tok"
        "key_authorization X ty tok tp = Some ka"
      by blast
    obtain d a1 where pc: "present_challenge W ty iv tok ka a = (d, a1)"
      by (cases "present_challenge W ty iv tok ka a")
    note h1 = present_challenge_hooks[OF pc]
    show ?thesis
    proof (cases d)
      case Fatal
      with run pending fields pc have "f = Out" "a' = a1" by (simp_all add: challenge_def)
      with h1 Fatal show ?thesis
        by (intro exI[of _ Dead]) (simp add: hook_end_def is_open_def)
    next
      case Decline
      with run pending fields pc have "f = Next" "a' = a1" by (simp_all add: challenge_def)
      with h1 Decline show ?thesis by (intro exI[of _ Closed]) simp
    next
      case Accept
      obtain d2 a2 where rc: "run_challenge X W fuel url ty iv tok ka a1 = (d2, a2)"
        by (cases "run_challenge X W fuel url ty iv tok ka a1")
      have at: "attempt_of a1 ty iv tok ka = attempt_of a ty iv tok ka"
        using h1 by (simp add: attempt_of_def)
      note h2 = run_challenge_hooks[OF rc, unfolded at]
      have h: "hooks W a a2 Closed (if d2 = None then attempt_of a ty iv tok ka else Closed)"
        using h1 h2 Accept by (auto intro: hooks_trans)
      have res: "a' = a2" "f = (case d2 of None \<Rightarrow> Polling | Some c \<Rightarrow> if c then Done else Out)"
        using run pending fields pc Accept rc
        by (auto simp: challenge_def split: option.splits if_splits)
      show ?thesis
        using h res
        by (intro exI[of _ "if d2 = None then attempt_of a ty iv tok ka else Closed"])
           (auto simp: hook_end_def attempt_of_def is_open_def)
    qed
  qed
qed

lemma hook_end_Next: "hook_end st (Next = Out) (Next = Polling) \<Longrightarrow> st = Closed"
  by (cases st) (simp_all add: hook_end_def is_open_def)

lemma challenges_hooks:
  "challenges X W fuel tp iv chs a = (f, a') \<Longrightarrow>
   \<exists>st. hooks W a a' Closed st \<and> hook_end st (f = Out) (f = Polling)"
proof (induction chs arbitrary: a)
  case Nil
  then show ?case by (intro exI[of _ Closed]) simp
next
  case (Cons ch chs)
  obtain f1 a1 where c: "challenge X W fuel tp iv ch a = (f1, a1)"
    by (cases "challenge X W fuel tp iv ch a")
  from challenge_hooks[OF c] obtain st1 where
    1: "hooks W a a1 Closed st1" "hook_end st1 (f1 = Out) (f1 = Polling)" by blast
  show ?case
  proof (cases "f1 = Next")
    case True
    with 1 have st1: "st1 = Closed" by (simp add: hook_end_Next)
    from Cons.prems c True have "challenges X W fuel tp iv chs a1 = (f, a')" by simp
    from Cons.IH[OF this] obtain st where
      2: "hooks W a1 a' Closed st" "hook_end st (f = Out) (f = Polling)" by blast
    with 1 st1 show ?thesis by (blast intro: hooks_trans)
  next
    case False
    with Cons.prems c have "f = f1" "a' = a1" by (cases f1; simp)+
    with 1 show ?thesis by blast
  qed
qed



lemma authorization_cases:
  assumes run: "authorization X W fuel tp (JSON_STRING u) a = (f, a')"
    and p: "acme_post X W (Some u) [] a = (r1, a1)"
  shows "(a' = a1 \<and> (f = Out \<or> f = Next)) \<or>
         (\<exists>iv chs f2. challenges X W fuel tp iv chs (a1\<lparr>json := None\<rparr>) = (f2, a') \<and>
            f = (case f2 of Done \<Rightarrow> Next | Next \<Rightarrow> Out | Out \<Rightarrow> Out | Polling \<Rightarrow> Polling))"
  using run p unfolding authorization_def
  by (auto simp: Let_def split: if_splits option.splits json.splits prod.splits flow.splits)

lemma authorization_hooks:
  assumes run: "authorization X W fuel tp au a = (f, a')"
  shows "\<exists>st. hooks W a a' Closed st \<and> hook_end st (f = Out) (f = Polling)"
proof (cases au)
  case (JSON_STRING u)
  obtain r1 a1 where p: "acme_post X W (Some u) [] a = (r1, a1)"
    by (cases "acme_post X W (Some u) [] a")
  have h1: "hooks W a a1 Closed Closed"
    by (rule evs_None_hooks[OF acme_post_evs[OF p]]) simp
  have h1': "hooks W a (a1\<lparr>json := None\<rparr>) Closed Closed"
    using h1 by (simp add: hooks_iff)
  from authorization_cases[OF run[unfolded JSON_STRING] p]
  show ?thesis
  proof
    assume "a' = a1 \<and> (f = Out \<or> f = Next)"
    with h1 show ?thesis by (intro exI[of _ Closed]) simp
  next
    assume "\<exists>iv chs f2. challenges X W fuel tp iv chs (a1\<lparr>json := None\<rparr>) = (f2, a') \<and>
            f = (case f2 of Done \<Rightarrow> Next | Next \<Rightarrow> Out | Out \<Rightarrow> Out | Polling \<Rightarrow> Polling)"
    then obtain iv chs f2 where
      c: "challenges X W fuel tp iv chs (a1\<lparr>json := None\<rparr>) = (f2, a')"
      and f: "f = (case f2 of Done \<Rightarrow> Next | Next \<Rightarrow> Out | Out \<Rightarrow> Out | Polling \<Rightarrow> Polling)"
      by blast
    from challenges_hooks[OF c] obtain st where
      2: "hooks W (a1\<lparr>json := None\<rparr>) a' Closed st" "hook_end st (f2 = Out) (f2 = Polling)"
      by blast
    have "hooks W a a' Closed st" by (rule hooks_trans[OF h1' 2(1)])
    moreover have "hook_end st (f = Out) (f = Polling)"
      using 2(2) f by (cases f2) (simp_all add: hook_end_def)
    ultimately show ?thesis by blast
  qed
next
  case (JSON_OBJECT ms)
  with run show ?thesis by (intro exI[of _ Closed]) (auto simp: authorization_def)
next
  case (JSON_ARRAY vs)
  with run show ?thesis by (intro exI[of _ Closed]) (auto simp: authorization_def)
next
  case (JSON_PRIMITIVE v)
  with run show ?thesis by (intro exI[of _ Closed]) (auto simp: authorization_def)
qed

lemma authorizations_hooks:
  "authorizations X W fuel tp aus a = (r, a') \<Longrightarrow>
   \<exists>st. hooks W a a' Closed st \<and> hook_end st (r = Some False) (r = None)"
proof (induction aus arbitrary: a)
  case Nil
  then show ?case by (intro exI[of _ Closed]) simp
next
  case (Cons au aus)
  obtain f1 a1 where c: "authorization X W fuel tp au a = (f1, a1)"
    by (cases "authorization X W fuel tp au a")
  from authorization_hooks[OF c] obtain st1 where
    1: "hooks W a a1 Closed st1" "hook_end st1 (f1 = Out) (f1 = Polling)" by blast
  show ?case
  proof (cases "f1 = Next")
    case True
    with 1 have st1: "st1 = Closed" by (simp add: hook_end_Next)
    from Cons.prems c True have "authorizations X W fuel tp aus a1 = (r, a')" by simp
    from Cons.IH[OF this] obtain st where
      2: "hooks W a1 a' Closed st" "hook_end st (r = Some False) (r = None)" by blast
    with 1 st1 show ?thesis by (blast intro: hooks_trans)
  next
    case False
    with Cons.prems c have "a' = a1" "r = (if f1 = Polling then None else Some False)"
      by (cases f1; simp)+
    with 1 False show ?thesis
      by (intro exI[of _ st1]) (auto simp: hook_end_def)
  qed
qed

lemma authorize_hooks:
  assumes "authorize X W fuel a = (r, a')"
  shows "\<exists>st. hooks W a a' Closed st \<and> hook_end st (r = Some False) (r = None)"
proof (cases "\<exists>auths tp. json_find X (order a) ''authorizations'' = Some (JSON_ARRAY auths) \<and>
                jws_thumbprint X (key a) = Some tp")
  case True
  then obtain auths tp where
    "json_find X (order a) ''authorizations'' = Some (JSON_ARRAY auths)"
    "jws_thumbprint X (key a) = Some tp" by blast
  with assms have "authorizations X W fuel tp auths a = (r, a')"
    by (simp add: authorize_def)
  then show ?thesis by (rule authorizations_hooks)
next
  case False
  with assms have "a' = a"
    by (auto simp: authorize_def split: option.splits json.splits)
  then show ?thesis by (intro exI[of _ Closed]) simp
qed

lemma order_ready_hooks:
  assumes "order_ready X W fuel url a = (r, a')"
  shows "\<exists>st. hooks W a a' Closed st \<and> hook_end st (r = Some False) (r = None)"
proof -
  obtain r1 a1 where p: "authorize X W fuel a = (r1, a1)"
    by (cases "authorize X W fuel a")
  from authorize_hooks[OF p] obtain st1 where
    1: "hooks W a a1 Closed st1" "hook_end st1 (r1 = Some False) (r1 = None)" by blast
  show ?thesis
  proof (cases "r1 = Some True")
    case True
    with 1 have st1: "st1 = Closed" by (cases st1) (simp_all add: hook_end_def is_open_def)
    from assms p True have q: "poll_ready X W fuel url a1 = (r, a')"
      by (simp add: order_ready_def)
    have "hooks W a1 a' Closed Closed"
      by (rule evs_None_hooks[OF poll_ready_evs[OF q]]) simp
    with 1 st1 show ?thesis by (intro exI[of _ Closed]) (auto intro: hooks_trans)
  next
    case False
    with assms p have "a' = a1" "r = r1"
      by (auto simp: order_ready_def split: option.splits bool.splits)
    with 1 show ?thesis by blast
  qed
qed



lemma hook_end_True: "hook_end st (r = Some False) (r = None) \<Longrightarrow> r = Some True \<Longrightarrow> st = Closed"
  by (cases st) (simp_all add: hook_end_def is_open_def)

lemma cert_issue_cases:
  assumes run: "cert_issue X W fuel a = (r, a')"
    and url: "json_find_string X (dir a) ''newOrder'' = Some url"
    and p: "acme_post X W (Some url) (identifiers (names a)) a = (r1, a1)"
  shows "(a' = a1 \<and> r = Some False) \<or>
         (\<exists>ou. order_finalize X W fuel ou (a1\<lparr>order := json a1, json := None\<rparr>) = (r, a')) \<or>
         (\<exists>ou. (case order_ready X W fuel ou (a1\<lparr>order := json a1, json := None\<rparr>) of
               (None, a) \<Rightarrow> (None, a)
             | (Some False, a) \<Rightarrow> (Some False, a)
             | (Some True, a) \<Rightarrow> order_finalize X W fuel ou a) = (r, a'))"
  using run url p
  by (auto simp: cert_issue_def Let_def split: if_splits option.splits)

lemma cert_issue_hooks:
  assumes run: "cert_issue X W fuel a = (r, a')"
  shows "\<exists>st. hooks W a a' Closed st \<and> hook_end st (r = Some False) (r = None)"
proof (cases "json_find_string X (dir a) ''newOrder''")
  case None
  with run have "a' = a" by (simp add: cert_issue_def)
  then show ?thesis by (intro exI[of _ Closed]) simp
next
  case (Some url)
  obtain r1 a1 where p: "acme_post X W (Some url) (identifiers (names a)) a = (r1, a1)"
    by (cases "acme_post X W (Some url) (identifiers (names a)) a")
  let ?a2 = "a1\<lparr>order := json a1, json := None\<rparr>"
  have h1: "hooks W a a1 Closed Closed"
    by (rule evs_None_hooks[OF acme_post_evs[OF p]]) simp
  have h2: "hooks W a ?a2 Closed Closed"
    using h1 by (simp add: hooks_iff)
  have fin: "\<exists>st. hooks W a a4 Closed st \<and> hook_end st (r4 = Some False) (r4 = None)"
    if "hooks W a a3 Closed Closed" "order_finalize X W fuel ou a3 = (r4, a4)" for a3 ou r4 a4
  proof -
    have "hooks W a3 a4 Closed Closed"
      by (rule evs_None_hooks[OF order_finalize_evs[OF that(2)]]) simp
    with that(1) show ?thesis by (intro exI[of _ Closed]) (auto intro: hooks_trans)
  qed
  have rdy: "\<exists>st. hooks W a a' Closed st \<and> hook_end st (r = Some False) (r = None)"
    if o: "order_ready X W fuel ou ?a2 = (r3, a3)"
      and rest: "(case (r3, a3) of
                    (None, a) \<Rightarrow> (None, a)
                  | (Some False, a) \<Rightarrow> (Some False, a)
                  | (Some True, a) \<Rightarrow> order_finalize X W fuel ou a) = (r, a')"
    for ou r3 a3
  proof -
    from order_ready_hooks[OF o] obtain st3 where
      3: "hooks W ?a2 a3 Closed st3" "hook_end st3 (r3 = Some False) (r3 = None)" by blast
    have h3: "hooks W a a3 Closed st3" by (rule hooks_trans[OF h2 3(1)])
    show ?thesis
    proof (cases "r3 = Some True")
      case True
      with 3(2) have "st3 = Closed" by (rule hook_end_True)
      with h3 rest True show ?thesis by (auto intro: fin)
    next
      case False
      with rest have "a' = a3" "r = r3" by (auto split: option.splits bool.splits)
      with h3 3(2) show ?thesis by blast
    qed
  qed
  from cert_issue_cases[OF run Some p] show ?thesis
  proof (elim disjE exE conjE)
    assume "a' = a1" "r = Some False"
    with h1 show ?thesis by (intro exI[of _ Closed]) simp
  next
    fix ou assume "order_finalize X W fuel ou ?a2 = (r, a')"
    then show ?thesis by (rule fin[OF h2])
  next
    fix ou
    assume c: "(case order_ready X W fuel ou ?a2 of
          (None, a) \<Rightarrow> (None, a)
        | (Some False, a) \<Rightarrow> (Some False, a)
        | (Some True, a) \<Rightarrow> order_finalize X W fuel ou a) = (r, a')"
    obtain r3 a3 where o: "order_ready X W fuel ou ?a2 = (r3, a3)"
      by (cases "order_ready X W fuel ou ?a2")
    show ?thesis by (rule rdy[OF o c[unfolded o]])
  qed
qed



subsection \<open>The shape of a run of \<^verbatim>\<open>main\<close>\<close>

lemma fresh_call: "fresh a \<Longrightarrow> fs_event e \<Longrightarrow> fresh (call e a)"
  by (simp add: fresh_def call_def)

lemma options_loop_fresh:
  "options_loop X optv f a = (ok, f', a') \<Longrightarrow> fresh a \<Longrightarrow> fresh a'"
  by (induction X optv f a rule: options_loop.induct)
     (auto simp: fresh_def split: if_splits prod.splits)

lemma access_fresh: "access W p m a = (ok, a') \<Longrightarrow> fresh a \<Longrightarrow> fresh a'"
  by (auto simp: access_def Let_def fs_event_def intro!: fresh_call)

lemma mkdir_fresh: "mkdir W p m a = (ok, a') \<Longrightarrow> fresh a \<Longrightarrow> fresh a'"
  by (auto simp: mkdir_def Let_def fs_event_def intro!: fresh_call)

lemma stat_fresh: "stat W p a = (r, a') \<Longrightarrow> fresh a \<Longrightarrow> fresh a'"
  by (auto simp: stat_def Let_def fs_event_def intro!: fresh_call)

lemma key_load_fresh: "key_load W c p a = (r, a') \<Longrightarrow> fresh a \<Longrightarrow> fresh a'"
  by (auto simp: key_load_def Let_def fs_event_def intro!: fresh_call)

lemma cert_valid_fresh: "cert_valid W d ns v a = (r, a') \<Longrightarrow> fresh a \<Longrightarrow> fresh a'"
  by (auto simp: cert_valid_def Let_def fs_event_def intro!: fresh_call)

lemma check_or_mkdir_fresh:
  "check_or_mkdir W c d m a = (ok, a') \<Longrightarrow> fresh a \<Longrightarrow> fresh a'"
  by (auto simp: check_or_mkdir_def split: prod.splits if_splits bool.splits option.splits
      dest: access_fresh mkdir_fresh stat_fresh)

lemma fresh_fields [simp]:
  "fresh (a\<lparr>email := e\<rparr>) = fresh a"
  "fresh (a\<lparr>names := ns\<rparr>) = fresh a"
  "fresh (a\<lparr>domain := d\<rparr>) = fresh a"
  "fresh (a\<lparr>keydir := kd\<rparr>) = fresh a"
  "fresh (a\<lparr>dkeydir := dk, certdir := cd\<rparr>) = fresh a"
  "fresh (a\<lparr>key := k\<rparr>) = fresh a"
  "fresh (a\<lparr>dkey := k\<rparr>) = fresh a"
  by (simp_all add: fresh_def)

lemma main_args_fresh:
  "main_args W action rest a = (ok, rf, a') \<Longrightarrow> fresh a \<Longrightarrow> fresh a'"
  by (auto simp: main_args_def Let_def split: if_splits list.splits prod.splits
      dest: access_fresh)

lemma check_hook_fresh: "check_hook W a = (ok, a') \<Longrightarrow> fresh a \<Longrightarrow> fresh a'"
  by (auto simp: check_hook_def split: option.splits dest: access_fresh)

lemma set_dirs_fresh: "fresh a \<Longrightarrow> fresh (set_dirs a)"
  by (simp add: set_dirs_def Let_def fresh_def split: option.splits)

lemma load_account_key_fresh:
  "load_account_key W c a = (ok, a') \<Longrightarrow> fresh a \<Longrightarrow> fresh a'"
  by (auto simp: load_account_key_def split: prod.splits bool.splits
      dest!: check_or_mkdir_fresh key_load_fresh)

lemma main_setup_fresh:
  "main_setup W f action a = (ok, a') \<Longrightarrow> fresh a \<Longrightarrow> fresh a'"
  by (auto simp: main_setup_def Let_def split: prod.splits bool.splits
      dest!: check_hook_fresh dest: load_account_key_fresh[OF _ set_dirs_fresh])

lemma fresh_acme0: "fresh acme0"
  by (simp add: fresh_def acme0_def)

lemma main_cases:
  assumes "main X W fuel optv args = (rc, a')"
  shows "(rc = Some EXIT_FAILURE \<and> fresh a') \<or>
         (\<exists>f action rf a3. fresh a3 \<and> main_run X W fuel f action rf a3 = (rc, a'))"
proof -
  obtain ok1 f a1 where o: "options_loop X optv opts0 acme0 = (ok1, f, a1)"
    by (cases "options_loop X optv opts0 acme0")
  have f1: "fresh a1" by (rule options_loop_fresh[OF o fresh_acme0])
  show ?thesis
  proof (cases "\<exists>action rest. args = action # rest \<and> ok1 \<and> \<not> opt_version f \<and>
                  w_crypto_init W \<and> w_curl_global_init W")
    case False
    with assms o f1 fresh_acme0 show ?thesis
      by (auto simp: main_def split: if_splits list.splits bool.splits)
  next
    case True
    then obtain action rest where a: "args = action # rest" "ok1" "\<not> opt_version f"
      "w_crypto_init W" "w_curl_global_init W" by blast
    obtain ok2 rf a2 where m: "main_args W action rest a1 = (ok2, rf, a2)"
      by (cases "main_args W action rest a1")
    have f2: "fresh a2" by (rule main_args_fresh[OF m f1])
    obtain ok3 a3 where s: "main_setup W f action a2 = (ok3, a3)"
      by (cases "main_setup W f action a2")
    have f3: "fresh a3" by (rule main_setup_fresh[OF s f2])
    show ?thesis
      using assms o a m s f2 f3
      by (auto simp: main_def split: if_splits bool.splits)
  qed
qed



lemma fs_pre_event: "fs_event e \<Longrightarrow> pre_event X d e"
  by (simp add: pre_event_def)

lemma fresh_pre: "fresh a \<Longrightarrow> list_all (pre_event X d) (trace a)"
  by (auto simp: fresh_def list_all_iff intro: fs_pre_event)

lemma bootstrap_pre:
  assumes "acme_bootstrap X W a = (ok, a')" and "list_all (pre_event X d) (trace a)"
  shows "list_all (pre_event X d) (trace a') \<and> kid a' = kid a"
  using acme_bootstrap_gets[OF assms(1), of d] assms(2)
  by (auto simp: list_all_iff pre_event_def)

lemma acct_run_pre:
  assumes "acct_run X a a'" and "list_all (pre_event X (dir a)) (trace a)"
  shows "list_all (pre_event X (dir a')) (trace a')"
  using assms by (auto simp: acct_run_iff list_all_iff pre_event_def)

lemma act_ok_total:
  assumes "\<And>b ok b'. act b = (ok, b') \<Longrightarrow> evs X None b b'"
  shows "act_ok X W (total act)"
  unfolding act_ok_def
proof (intro allI impI)
  fix b r b'
  assume t: "total act b = (r, b')"
  then obtain ok where a: "act b = (ok, b')" "r = Some ok"
    by (auto simp: total_def split: prod.splits)
  have e: "evs X None b b'" by (rule assms[OF a(1)])
  have "hooks W b b' Closed Closed" by (rule evs_None_hooks[OF e]) simp
  then have "\<exists>st. hooks W b b' Closed st \<and> hook_end st (r = Some False) (r = None)"
    by (intro exI[of _ Closed]) simp
  with evs_weaken[OF e] show "evs X (jws_thumbprint X (key b)) b b' \<and>
        (\<exists>st. hooks W b b' Closed st \<and> hook_end st (r = Some False) (r = None))"
    by blast
qed

lemma act_ok_cert_issue: "act_ok X W (cert_issue X W fuel)"
  unfolding act_ok_def by (blast intro: cert_issue_evs cert_issue_hooks)

lemma act_ok_account_update: "act_ok X W (total (account_update X W))"
  by (rule act_ok_total) (rule account_update_evs)

lemma act_ok_account_deactivate: "act_ok X W (total (account_deactivate X W))"
  by (rule act_ok_total) (rule account_deactivate_evs)

lemma act_ok_cert_revoke: "act_ok X W (total (cert_revoke X W certfile reason))"
  by (rule act_ok_total) (rule cert_revoke_evs)

lemma retrieve_and_shape:
  assumes run: "retrieve_and X W act a = (rc, a')" and fr: "fresh a" and act: "act_ok X W act"
  shows "run_shape X W rc a'"
proof -
  obtain ok1 a1 where b: "acme_bootstrap X W a = (ok1, a1)"
    by (cases "acme_bootstrap X W a")
  have p1: "list_all (pre_event X d) (trace a1)" "kid a1 = None" for d
    using bootstrap_pre[OF b fresh_pre[OF fr]] fr by (simp_all add: fresh_def)
  show ?thesis
  proof (cases ok1)
    case False
    with run b have "a' = a1" by (simp add: retrieve_and_def)
    with p1 show ?thesis by (simp add: run_shape_def)
  next
    case True
    obtain ok2 a2 where r: "account_retrieve X W a1 = (ok2, a2)"
      by (cases "account_retrieve X W a1")
    have "\<not> nonempty (kid a1)" using p1(2) by (simp add: nonempty_def)
    note 2 = account_retrieve_acct_run[OF r this]
    have p2: "list_all (pre_event X (dir a2)) (trace a2)"
      using acct_run_pre[OF _ p1(1)] 2 by blast
    show ?thesis
    proof (cases ok2)
      case False
      with run b True r have "a' = a2" by (simp add: retrieve_and_def)
      with p2 show ?thesis by (simp add: run_shape_def)
    next
      case ok: True
      obtain r3 where a3: "act a2 = (r3, a')"
        and rc: "rc = (case r3 of None \<Rightarrow> None | Some ok \<Rightarrow> Some (exit_code ok))"
        using run b True r ok
        by (cases "act a2") (auto simp: retrieve_and_def split: option.splits)
      from act[unfolded act_ok_def] a3 obtain st where
        e: "evs X (jws_thumbprint X (key a2)) a2 a'"
        and h: "hooks W a2 a' Closed st" "hook_end st (r3 = Some False) (r3 = None)"
        by blast
      have "hook_end st (rc = Some EXIT_FAILURE) (rc = None)"
        using h(2) rc
        by (auto simp: hook_end_def exit_code_def EXIT_FAILURE_def EXIT_SUCCESS_def
            split: option.splits)
      with e h(1) have "act_run X W a2 rc a'" by (auto simp: act_run_def)
      moreover have "kid a2 \<noteq> None" using 2 ok by simp
      ultimately show ?thesis using p2 by (auto simp: run_shape_def)
    qed
  qed
qed

lemma fresh_shape: "fresh a \<Longrightarrow> run_shape X W rc a"
  by (simp add: run_shape_def fresh_pre)

lemma main_issue_shape:
  assumes run: "main_issue X W fuel f a = (rc, a')" and fr: "fresh a"
  shows "run_shape X W rc a'"
proof -
  obtain ok1 a1 where c1: "check_or_mkdir W (\<not> opt_never f) (str (dkeydir a)) mode_700 a = (ok1, a1)"
    by (cases "check_or_mkdir W (\<not> opt_never f) (str (dkeydir a)) mode_700 a")
  have f1: "fresh a1" by (rule check_or_mkdir_fresh[OF c1 fr])
  obtain ok2 a2 where c2: "check_or_mkdir W (\<not> opt_never f) (str (certdir a1)) mode_755 a1 = (ok2, a2)"
    by (cases "check_or_mkdir W (\<not> opt_never f) (str (certdir a1)) mode_755 a1")
  have f2: "fresh a2" by (rule check_or_mkdir_fresh[OF c2 f1])
  obtain k a3 where c3: "key_load W (\<not> opt_never f) (str (dkeydir a2) @ ''/key.pem'') a2 = (k, a3)"
    by (cases "key_load W (\<not> opt_never f) (str (dkeydir a2) @ ''/key.pem'') a2")
  have f3: "fresh a3" by (rule key_load_fresh[OF c3 f2])
  obtain v a4 where c4: "cert_valid W (str (certdir a3)) (names a3) (opt_days f)
                           (a3\<lparr>dkey := k\<rparr>) = (v, a4)"
    by (cases "cert_valid W (str (certdir a3)) (names a3) (opt_days f) (a3\<lparr>dkey := k\<rparr>)")
  have f4: "fresh a4" using cert_valid_fresh[OF c4] f3 by simp
  have "a' = a1 \<or> a' = a2 \<or> a' = a3 \<or> a' = a4 \<or>
        retrieve_and X W (cert_issue X W fuel) a4 = (rc, a')"
    using run c1 c2 c3 c4
    by (auto simp: main_issue_def split: bool.splits option.splits if_splits)
  with f1 f2 f3 f4 show ?thesis
    by (auto intro: fresh_shape retrieve_and_shape[OF _ _ act_ok_cert_issue])
qed

lemma main_run_shape:
  assumes run: "main_run X W fuel f action rf a = (rc, a')" and fr: "fresh a"
  shows "run_shape X W rc a'"
proof (cases "action = ''new''")
  case True
  obtain ok1 a1 where b: "acme_bootstrap X W a = (ok1, a1)"
    by (cases "acme_bootstrap X W a")
  have p1: "list_all (pre_event X d) (trace a1)" "kid a1 = None" for d
    using bootstrap_pre[OF b fresh_pre[OF fr]] fr by (simp_all add: fresh_def)
  show ?thesis
  proof (cases ok1)
    case False
    with run b True have "a' = a1" by (simp add: main_run_def)
    with p1 show ?thesis by (simp add: run_shape_def)
  next
    case ok: True
    obtain ok2 where n: "account_new X W (opt_yes f) a1 = (ok2, a')"
      using run b True ok
      by (cases "account_new X W (opt_yes f) a1") (auto simp: main_run_def)
    have "\<not> nonempty (kid a1)" using p1(2) by (simp add: nonempty_def)
    from acct_run_pre[OF account_new_acct_run[OF n this] p1(1)]
    show ?thesis by (simp add: run_shape_def)
  qed
next
  case False
  with run fr show ?thesis
    by (auto simp: main_run_def split: if_splits
        intro: fresh_shape main_issue_shape
          retrieve_and_shape[OF _ _ act_ok_account_update]
          retrieve_and_shape[OF _ _ act_ok_account_deactivate]
          retrieve_and_shape[OF _ _ act_ok_cert_revoke])
qed

lemma main_shape:
  assumes "main X W fuel optv args = (rc, a')"
  shows "run_shape X W rc a'"
  using main_cases[OF assms]
  by (auto intro: fresh_shape main_run_shape)



subsection \<open>The protected header\<close>

lemma pre_event_jwk_phase: "pre_event X d e \<Longrightarrow> jwk_phase X d e"
  by (cases e) (auto simp: pre_event_def fs_event_def acct_event_def jwk_phase_def)

lemma ev_ok_kid_phase: "ev_ok X (Some k) pk T e \<Longrightarrow> k \<noteq> [] \<Longrightarrow> kid_phase (Some k) e"
  by (cases e)
     (auto simp: ev_ok_def kid_phase_def post_form_ok_def nonempty_def split: protected.splits)

text \<open>
  C5 (as amended). In every run of \<^verbatim>\<open>main\<close> that does not end with an empty account
  URL, the history splits in two parts: in the first, every signed request has a
  protected header of the \<^verbatim>\<open>jwk\<close> form and goes to the \<^verbatim>\<open>newAccount\<close> URL of the
  directory; in the second, every signed request has a protected header of the \<^verbatim>\<open>kid\<close>
  form, with the account URL that was adopted, which is not empty. A protected header
  has one of the two forms by its type.
\<close>

theorem protected_header_jwk_then_kid:
  assumes run: "main X W fuel optv args = (rc, a')" and kd: "kid a' \<noteq> Some []"
  shows "\<exists>pre post. trace a' = pre @ post \<and>
           list_all (jwk_phase X (dir a')) pre \<and> list_all (kid_phase (kid a')) post"
proof -
  from main_shape[OF run] show ?thesis
    unfolding run_shape_def
  proof
    assume "list_all (pre_event X (dir a')) (trace a')"
    then have "list_all (jwk_phase X (dir a')) (trace a')"
      by (auto simp: list_all_iff intro: pre_event_jwk_phase)
    then show ?thesis by (intro exI[of _ "trace a'"] exI[of _ "[]"]) simp
  next
    assume "\<exists>b. list_all (pre_event X (dir b)) (trace b) \<and> kid b \<noteq> None \<and> act_run X W b rc a'"
    then obtain b where b: "list_all (pre_event X (dir b)) (trace b)" "kid b \<noteq> None"
      and e: "evs X (jws_thumbprint X (key b)) b a'"
      by (auto simp: act_run_def)
    from e obtain es where es: "trace a' = trace b @ es"
      "list_all (ev_ok X (kid b) (key b) (jws_thumbprint X (key b))) es"
      and same: "kid a' = kid b" "dir a' = dir b"
      by (auto simp: evs_iff)
    from b(2) kd same obtain k where k: "kid b = Some k" "k \<noteq> []" by auto
    have "list_all (jwk_phase X (dir a')) (trace b)"
      using b(1) same by (auto simp: list_all_iff intro: pre_event_jwk_phase)
    moreover have "list_all (kid_phase (kid a')) es"
      using es(2) k same by (auto simp: list_all_iff intro: ev_ok_kid_phase)
    ultimately show ?thesis using es(1) by blast
  qed
qed

theorem protected_header_jwk_then_kid_witness:
  "\<exists>pre post.
     trace (snd (main (mock_ext docs3) (mock_world routes3 (Exited 0) False) 5
                   [(CHR ''h'', ''/tmp/h'')] [''issue'', ''example.com''])) = pre @ post \<and>
     list_all (jwk_phase (mock_ext docs3)
                 (dir (snd (main (mock_ext docs3) (mock_world routes3 (Exited 0) False) 5
                              [(CHR ''h'', ''/tmp/h'')] [''issue'', ''example.com''])))) pre \<and>
     list_all (kid_phase (Some ''https://ca/acct/1'')) post"
proof -
  let ?m = "main (mock_ext docs3) (mock_world routes3 (Exited 0) False) 5
              [(CHR ''h'', ''/tmp/h'')] [''issue'', ''example.com'']"
  have run: "?m = (fst ?m, snd ?m)" by simp
  have k: "kid (snd ?m) = Some ''https://ca/acct/1''" by code_simp
  then have kd: "kid (snd ?m) \<noteq> Some []" by simp
  from protected_header_jwk_then_kid[OF run kd] show ?thesis
    unfolding k .
qed

text \<open>
  C5 as the specification states it fails when the server answers the request for the
  account with an empty \<^verbatim>\<open>Location\<close> header: \<^verbatim>\<open>account_retrieve\<close> returns true with an
  empty account URL, and the next request, to the \<^verbatim>\<open>newOrder\<close> URL, is signed with a
  header of the \<^verbatim>\<open>jwk\<close> form.
\<close>

theorem jwk_after_empty_location_counterexample:
  "fst (account_retrieve (mock_ext docs3) (mock_world routes2 (Exited 0) False)
          (snd (acme_bootstrap (mock_ext docs3) (mock_world routes2 (Exited 0) False) acme0))) \<and>
   json_find_string (mock_ext docs3)
     (dir (snd (main (mock_ext docs3) (mock_world routes2 (Exited 0) False) 5 []
                  [''issue'', ''example.com'']))) ''newAccount'' = Some ''https://ca/acct'' \<and>
   Curl_post ''https://ca/order''
     (Protected_jwk ''n1'' ''https://ca/order'' (Some (Privkey ''account-or-domain-key'')))
     (identifiers [''example.com''])
     (''jwk,n1,https://ca/order.'' @ identifiers [''example.com''])
   \<in> set (trace (snd (main (mock_ext docs3) (mock_world routes2 (Exited 0) False) 5 []
                        [''issue'', ''example.com''])))"
  by code_simp



subsection \<open>The key authorization\<close>

lemma key_authorization_spec:
  "key_authorization X ty tok tp = spec_key_auth X (Some tp) ty tok"
  by (simp add: key_authorization_def spec_key_auth_def)

lemma pre_event_no_hook: "pre_event X d e \<Longrightarrow> \<not> is_hook e"
  by (cases e) (auto simp: pre_event_def fs_event_def acct_event_def is_hook_def)

lemma no_hook_key_auth_ok: "\<not> is_hook e \<Longrightarrow> key_auth_ok X T e"
  by (cases e) (auto simp: is_hook_def key_auth_ok_def)

lemma ev_ok_key_auth_ok: "ev_ok X kd pk T e \<Longrightarrow> key_auth_ok X T e"
  by (cases e)
     (auto simp: ev_ok_def key_auth_ok_def key_authorization_spec spec_key_auth_def
       split: option.splits)

lemma present_challenge_trace:
  "present_challenge W ty iv tok ka a = (d, b) \<Longrightarrow> trace b = trace a @ [shown a ty iv tok ka]"
  by (auto simp: present_challenge_def hook_run_def call_def shown_def Let_def
      split: if_splits prod.splits)

lemma challenge_shows:
  assumes pending: "json_compare_string X (Some ch) ''status'' ''pending'' = 0"
    and fields: "json_find_string X (Some ch) ''type'' = Some ty"
      "json_find_string X (Some ch) ''url'' = Some url"
      "json_find_string X (Some ch) ''token'' = Some tok"
    and ka: "key_authorization X ty tok tp = Some ka"
  shows "prefix (trace a @ [shown a ty iv tok ka]) (trace (snd (challenge X W fuel tp iv ch a)))"
proof -
  obtain d b where p: "present_challenge W ty iv tok ka a = (d, b)"
    by (cases "present_challenge W ty iv tok ka a")
  note t = present_challenge_trace[OF p]
  obtain r c where q: "run_challenge X W fuel url ty iv tok ka b = (r, c)"
    by (cases "run_challenge X W fuel url ty iv tok ka b")
  from run_challenge_evs[OF ka q] have "prefix (trace b) (trace c)"
    by (simp add: evs_def)
  then show ?thesis
    using pending fields ka p q t
    by (cases d; cases r) (simp_all add: challenge_def)
qed

lemma challenge_no_key_auth:
  assumes pending: "json_compare_string X (Some ch) ''status'' ''pending'' = 0"
    and fields: "json_find_string X (Some ch) ''type'' = Some ty"
      "json_find_string X (Some ch) ''url'' = Some url"
      "json_find_string X (Some ch) ''token'' = Some tok"
    and ka: "key_authorization X ty tok tp = None"
  shows "challenge X W fuel tp iv ch a = (Out, a)"
  using assms by (simp add: challenge_def)

lemma main_key_auth_ok:
  assumes run: "main X W fuel optv args = (rc, a')"
  shows "list_all (key_auth_ok X (jws_thumbprint X (key a'))) (trace a')"
proof -
  from main_shape[OF run] show ?thesis
    unfolding run_shape_def
  proof
    assume "list_all (pre_event X (dir a')) (trace a')"
    then show ?thesis
      by (auto simp: list_all_iff intro: no_hook_key_auth_ok dest: pre_event_no_hook)
  next
    assume "\<exists>b. list_all (pre_event X (dir b)) (trace b) \<and> kid b \<noteq> None \<and> act_run X W b rc a'"
    then obtain b where b: "list_all (pre_event X (dir b)) (trace b)"
      and e: "evs X (jws_thumbprint X (key b)) b a'"
      by (auto simp: act_run_def)
    from e obtain es where es: "trace a' = trace b @ es"
      "list_all (ev_ok X (kid b) (key b) (jws_thumbprint X (key b))) es"
      and same: "key a' = key b"
      by (auto simp: evs_iff)
    have "list_all (key_auth_ok X (jws_thumbprint X (key a'))) (trace b)"
      using b by (auto simp: list_all_iff intro: no_hook_key_auth_ok dest: pre_event_no_hook)
    moreover have "list_all (key_auth_ok X (jws_thumbprint X (key a'))) es"
      using es(2) same by (auto simp: list_all_iff intro: ev_ok_key_auth_ok)
    ultimately show ?thesis using es(1) by simp
  qed
qed

text \<open>
  C2. A challenge of status \<^verbatim>\<open>pending\<close> with a type, a URL and a token gets its key
  authorization from its type, its token and the thumbprint \<open>T\<close> that \<^verbatim>\<open>authorize\<close>
  passes on: the result of \<^verbatim>\<open>sha256_base64url\<close> on \<open>token.T\<close> if the type is \<^verbatim>\<open>dns-01\<close>,
  and \<open>token.T\<close> itself for every other type. If there is one, the next thing that
  happens is that the challenge is shown with it, to the hook (with \<^verbatim>\<open>begin\<close>) or to the
  operator; if there is none (the hash failed), the driver gives up with \<^verbatim>\<open>goto out\<close>
  and nothing is shown. And in every run of \<^verbatim>\<open>main\<close>, every challenge that is shown to
  the hook (with \<^verbatim>\<open>begin\<close>, \<^verbatim>\<open>done\<close> or \<^verbatim>\<open>failed\<close>) or to the operator carries the key
  authorization that the specification gives for its type, its token and the
  thumbprint of the account key.
\<close>

theorem key_authorization_by_type:
  assumes run: "main X W fuel optv args = (rc, a')"
    and pending: "json_compare_string X (Some ch) ''status'' ''pending'' = 0"
    and fields: "json_find_string X (Some ch) ''type'' = Some ty"
      "json_find_string X (Some ch) ''url'' = Some url"
      "json_find_string X (Some ch) ''token'' = Some tok"
  shows "key_authorization X ty tok T =
           (if ty = ''dns-01'' then sha256_base64url X (tok @ ''.'' @ T)
            else Some (tok @ ''.'' @ T)) \<and>
         (case key_authorization X ty tok T of
            None \<Rightarrow> challenge X W fuel2 T iv ch a = (Out, a)
          | Some ka \<Rightarrow>
              prefix (trace a @ [shown a ty iv tok ka])
                (trace (snd (challenge X W fuel2 T iv ch a)))) \<and>
         list_all (key_auth_ok X (jws_thumbprint X (key a'))) (trace a')"
proof -
  have "key_authorization X ty tok T =
           (if ty = ''dns-01'' then sha256_base64url X (tok @ ''.'' @ T)
            else Some (tok @ ''.'' @ T))"
    by (simp add: key_authorization_def)
  moreover have "case key_authorization X ty tok T of
            None \<Rightarrow> challenge X W fuel2 T iv ch a = (Out, a)
          | Some ka \<Rightarrow>
              prefix (trace a @ [shown a ty iv tok ka])
                (trace (snd (challenge X W fuel2 T iv ch a)))"
    using challenge_shows[OF pending fields] challenge_no_key_auth[OF pending fields]
    by (simp split: option.splits)
  moreover note main_key_auth_ok[OF run]
  ultimately show ?thesis by blast
qed

theorem key_authorization_by_type_witness:
  "key_authorization (mock_ext docs4) ''dns-01'' ''T1'' ''THUMB'' = Some ''sha256(T1.THUMB)'' \<and>
   prefix (trace acme1 @
             [Hook_run ''/tmp/h'' ''begin'' ''dns-01'' ''example.com'' ''T1'' ''sha256(T1.THUMB)''])
     (trace (snd (challenge (mock_ext docs4) (mock_world routes3 (Exited 0) False) 5 ''THUMB''
                    ''example.com'' chal2 acme1))) \<and>
   list_all (key_auth_ok (mock_ext docs4) (Some ''THUMB''))
     (trace (snd (main (mock_ext docs4) (mock_world routes3 (Exited 0) False) 5
                    [(CHR ''h'', ''/tmp/h'')] [''issue'', ''example.com'']))) \<and>
   Hook_run ''/tmp/h'' ''begin'' ''dns-01'' ''example.com'' ''T1'' ''sha256(T1.THUMB)''
     \<in> set (trace (snd (main (mock_ext docs4) (mock_world routes3 (Exited 0) False) 5
                          [(CHR ''h'', ''/tmp/h'')] [''issue'', ''example.com''])))"
proof -
  let ?X = "mock_ext docs4" and ?W = "mock_world routes3 (Exited 0) False"
  let ?m = "main ?X ?W 5 [(CHR ''h'', ''/tmp/h'')] [''issue'', ''example.com'']"
  have run: "?m = (fst ?m, snd ?m)" by simp
  have pending: "json_compare_string ?X (Some chal2) ''status'' ''pending'' = 0"
    by code_simp
  have fields: "json_find_string ?X (Some chal2) ''type'' = Some ''dns-01''"
    "json_find_string ?X (Some chal2) ''url'' = Some ''https://ca/chal/1''"
    "json_find_string ?X (Some chal2) ''token'' = Some ''T1''"
    by code_simp+
  have t: "jws_thumbprint ?X (key (snd ?m)) = Some ''THUMB''"
    by (simp add: mock_ext_def)
  have h: "sha256_base64url ?X (''T1'' @ ''.'' @ ''THUMB'') = Some ''sha256(T1.THUMB)''"
    by (simp add: mock_ext_def)
  have s: "shown acme1 ''dns-01'' ''example.com'' ''T1'' ''sha256(T1.THUMB)'' =
           Hook_run ''/tmp/h'' ''begin'' ''dns-01'' ''example.com'' ''T1'' ''sha256(T1.THUMB)''"
    by code_simp
  have e: "Hook_run ''/tmp/h'' ''begin'' ''dns-01'' ''example.com'' ''T1'' ''sha256(T1.THUMB)''
           \<in> set (trace (snd ?m))"
    by code_simp
  note k = key_authorization_by_type[OF run pending fields, of "''THUMB''" 5 "''example.com''" acme1]
  from k have k1: "key_authorization ?X ''dns-01'' ''T1'' ''THUMB'' = Some ''sha256(T1.THUMB)''"
    using h by simp
  from k have "prefix (trace acme1 @ [shown acme1 ''dns-01'' ''example.com'' ''T1'' ''sha256(T1.THUMB)''])
                 (trace (snd (challenge ?X ?W 5 ''THUMB'' ''example.com'' chal2 acme1)))"
    unfolding k1 by simp
  then have k2: "prefix (trace acme1 @
             [Hook_run ''/tmp/h'' ''begin'' ''dns-01'' ''example.com'' ''T1'' ''sha256(T1.THUMB)''])
     (trace (snd (challenge ?X ?W 5 ''THUMB'' ''example.com'' chal2 acme1)))"
    unfolding s .
  from k have k3: "list_all (key_auth_ok ?X (Some ''THUMB'')) (trace (snd ?m))"
    unfolding t by simp
  from k1 k2 k3 e show ?thesis by simp
qed

subsection \<open>The hook\<close>

lemma scan_quiet:
  "list_all (\<lambda>e. \<not> is_hook e) es \<Longrightarrow> st \<noteq> Dead \<Longrightarrow> scan W pre st es = Some st"
proof (induction es arbitrary: pre)
  case Nil
  show ?case by simp
next
  case (Cons e es)
  then show ?case by (cases e) (simp_all add: is_hook_def hook_step_def)
qed

lemma main_hooks:
  assumes run: "main X W fuel optv args = (rc, a')"
  shows "\<exists>st. scan W [] Closed (trace a') = Some st \<and>
              hook_end st (rc = Some EXIT_FAILURE) (rc = None)"
proof -
  have q: "scan W [] Closed (trace b) = Some Closed"
    if "list_all (pre_event X (dir b)) (trace b)" for b
    using that by (intro scan_quiet) (auto simp: list_all_iff dest: pre_event_no_hook)
  from main_shape[OF run] show ?thesis
    unfolding run_shape_def
  proof
    assume "list_all (pre_event X (dir a')) (trace a')"
    from q[OF this] show ?thesis by (intro exI[of _ Closed]) simp
  next
    assume "\<exists>b. list_all (pre_event X (dir b)) (trace b) \<and> kid b \<noteq> None \<and> act_run X W b rc a'"
    then obtain b st where b: "list_all (pre_event X (dir b)) (trace b)"
      and h: "hooks W b a' Closed st" "hook_end st (rc = Some EXIT_FAILURE) (rc = None)"
      by (auto simp: act_run_def)
    from h(1) obtain es where es: "trace a' = trace b @ es" "scan W (trace b) Closed es = Some st"
      by (auto simp: hooks_iff)
    have "scan W [] Closed (trace a') = Some st"
      unfolding es(1) scan_append q[OF b] using es(2) by simp
    with h(2) show ?thesis by blast
  qed
qed



lemma run_challenge_last:
  assumes run: "run_challenge X W fuel url ty iv tok ka a = (Some d, a')" and hk: "nonempty (hook a)"
  shows "last (trace a') = Hook_run (str (hook a)) (if d then ''done'' else ''failed'') ty iv tok ka"
proof -
  obtain r1 a1 where p: "acme_post X W (Some url) ''{}'' a = (r1, a1)"
    by (cases "acme_post X W (Some url) ''{}'' a")
  obtain d2 a2 where q: "(if r1 \<noteq> 200 then (Some False, a1) else poll_challenge X W fuel url a1) = (d2, a2)"
    by (cases "(if r1 \<noteq> 200 then (Some False, a1) else poll_challenge X W fuel url a1)")
  have e1: "evs X None a a1" by (rule acme_post_evs[OF p])
  have e2: "evs X None a1 a2"
    using q by (auto split: if_splits intro: poll_challenge_evs)
  have hk2: "hook a2 = hook a" using evs_hook[OF e1] evs_hook[OF e2] by simp
  show ?thesis
    using run p q hk hk2
    by (auto simp: run_challenge_def hook_run_def call_def Let_def split: option.splits)
qed

text \<open>
  C3. In every run of \<^verbatim>\<open>main\<close> the runs of the hook follow the protocol that \<open>scan\<close>
  checks: after a run with \<^verbatim>\<open>begin\<close> that exits with 0, the next run of the hook is a
  run with \<^verbatim>\<open>done\<close> or \<^verbatim>\<open>failed\<close> and the same program, type, identifier, token and key
  authorization, and no run with \<^verbatim>\<open>begin\<close> comes before it; no run with \<^verbatim>\<open>done\<close> or
  \<^verbatim>\<open>failed\<close> comes without such a \<^verbatim>\<open>begin\<close>. When \<^verbatim>\<open>main\<close> returns, no accepted attempt is
  left without its \<^verbatim>\<open>done\<close> or \<^verbatim>\<open>failed\<close> (one can be open only as long as the driver
  polls the challenge). The method is \<^verbatim>\<open>done\<close> if the challenge was completed and
  \<^verbatim>\<open>failed\<close> if not, and this run of the hook is the last thing that happens for the
  challenge.
\<close>

theorem accepted_begin_is_matched:
  assumes run: "main X W fuel optv args = (rc, a')"
  shows "(\<exists>st. scan W [] Closed (trace a') = Some st \<and> (is_open st \<longrightarrow> rc = None)) \<and>
         (run_challenge X W fuel2 url ty iv tok ka b = (Some d, c) \<longrightarrow> nonempty (hook b) \<longrightarrow>
            last (trace c) =
              Hook_run (str (hook b)) (if d then ''done'' else ''failed'') ty iv tok ka)"
  using main_hooks[OF run] run_challenge_last[of X W fuel2 url ty iv tok ka b d c]
  by (auto simp: hook_end_def)

theorem accepted_begin_is_matched_witness:
  "scan (mock_world routes3 (Exited 0) False) [] Closed
     (trace (snd (main (mock_ext docs3) (mock_world routes3 (Exited 0) False) 5
                    [(CHR ''h'', ''/tmp/h'')] [''issue'', ''example.com'']))) = Some Closed \<and>
   last (trace (snd (run_challenge (mock_ext docs3) (mock_world routes3 (Exited 0) False) 5
                       ''https://ca/chal/1'' ''http-01'' ''example.com'' ''T1'' ''T1.THUMB''
                       (acme0\<lparr>hook := Some ''/tmp/h''\<rparr>)))) =
     Hook_run ''/tmp/h'' ''failed'' ''http-01'' ''example.com'' ''T1'' ''T1.THUMB''"
proof -
  let ?X = "mock_ext docs3" and ?W = "mock_world routes3 (Exited 0) False"
  let ?m = "main ?X ?W 5 [(CHR ''h'', ''/tmp/h'')] [''issue'', ''example.com'']"
  let ?b = "acme0\<lparr>hook := Some ''/tmp/h''\<rparr>"
  let ?r = "run_challenge ?X ?W 5 ''https://ca/chal/1'' ''http-01'' ''example.com'' ''T1''
              ''T1.THUMB'' ?b"
  have run: "?m = (fst ?m, snd ?m)" by simp
  have rc: "fst ?m = Some 0" by code_simp
  have r: "?r = (Some False, snd ?r)" by (rule pair_fst_snd) code_simp
  have hk: "nonempty (hook ?b)" "str (hook ?b) = ''/tmp/h''" by (simp_all add: nonempty_def str_def)
  from accepted_begin_is_matched[OF run, of 5 "''https://ca/chal/1''" "''http-01''"
      "''example.com''" "''T1''" "''T1.THUMB''" ?b False "snd ?r"] r hk rc
  obtain st where st: "scan ?W [] Closed (trace (snd ?m)) = Some st" "\<not> is_open st"
    and l: "last (trace (snd ?r)) =
            Hook_run ''/tmp/h'' ''failed'' ''http-01'' ''example.com'' ''T1'' ''T1.THUMB''"
    by auto
  have "scan ?W [] Closed (trace (snd ?m)) = Some Closed" by code_simp
  with l show ?thesis by simp
qed



lemma challenge_with_hook:
  assumes hk: "nonempty (hook a)"
    and pending: "json_compare_string X (Some ch) ''status'' ''pending'' = 0"
    and fields: "json_find_string X (Some ch) ''type'' = Some ty"
      "json_find_string X (Some ch) ''url'' = Some url"
      "json_find_string X (Some ch) ''token'' = Some tok"
    and ka: "key_authorization X ty tok tp = Some ka"
    and b: "b = call (Hook_run (str (hook a)) ''begin'' ty iv tok ka) a"
    and r: "r = wait_result (w_child W (trace b))"
  shows "challenge X W fuel tp iv ch a =
           (if r < 0 then (Out, b)
            else if r > 0 then (Next, b)
            else (case run_challenge X W fuel url ty iv tok ka b of
                    (None, c) \<Rightarrow> (Polling, c)
                  | (Some d, c) \<Rightarrow> if d then (Done, c) else (Out, c)))"
  using hk pending fields ka
  by (auto simp: challenge_def present_challenge_def hook_run_def Let_def b r
      split: prod.splits option.splits)

text \<open>
  C4. With a hook configured, a challenge of status \<^verbatim>\<open>pending\<close> with its type, URL and
  token is first shown to the hook: the hook is run with the arguments
  \<^verbatim>\<open>[hook, "begin", type, identifier_value, token, key_auth]\<close>. If the result \<open>r\<close> is
  negative, the loop over the challenges stops with \<^verbatim>\<open>goto out\<close> and nothing more is done;
  if it is positive, the loop goes on with the next challenge of the authorization, and
  nothing is sent for this one; if it is 0, the challenge is run. And in every run of
  \<^verbatim>\<open>main\<close>, a run of the hook with \<^verbatim>\<open>begin\<close> that returns a negative result is the last
  event, and the process exits with \<^verbatim>\<open>EXIT_FAILURE\<close>.
\<close>

theorem begin_exit_code:
  assumes hk: "nonempty (hook a)"
    and pending: "json_compare_string X (Some ch) ''status'' ''pending'' = 0"
    and fields: "json_find_string X (Some ch) ''type'' = Some ty"
      "json_find_string X (Some ch) ''url'' = Some url"
      "json_find_string X (Some ch) ''token'' = Some tok"
    and ka: "key_authorization X ty tok tp = Some ka"
    and b: "b = call (Hook_run (str (hook a)) ''begin'' ty iv tok ka) a"
    and r: "r = wait_result (w_child W (trace b))"
    and run: "main X W fuel2 optv args = (rc, a')"
  shows "trace b = trace a @ [Hook_run (str (hook a)) ''begin'' ty iv tok ka] \<and>
         (r < 0 \<longrightarrow> challenges X W fuel tp iv (ch # chs) a = (Out, b)) \<and>
         (0 < r \<longrightarrow> challenges X W fuel tp iv (ch # chs) a = challenges X W fuel tp iv chs b) \<and>
         (r = 0 \<longrightarrow> challenges X W fuel tp iv (ch # chs) a =
                      (case run_challenge X W fuel url ty iv tok ka b of
                         (None, c) \<Rightarrow> (Polling, c)
                       | (Some d, c) \<Rightarrow> if d then (Done, c) else (Out, c))) \<and>
         (\<exists>st. scan W [] Closed (trace a') = Some st \<and> (st = Dead \<longrightarrow> rc = Some EXIT_FAILURE))"
proof -
  note c = challenge_with_hook[OF hk pending fields ka b r, of fuel]
  have "trace b = trace a @ [Hook_run (str (hook a)) ''begin'' ty iv tok ka]"
    by (simp add: b call_def)
  moreover have "r < 0 \<longrightarrow> challenges X W fuel tp iv (ch # chs) a = (Out, b)"
    by (simp add: c)
  moreover have "0 < r \<longrightarrow> challenges X W fuel tp iv (ch # chs) a = challenges X W fuel tp iv chs b"
    by (simp add: c)
  moreover have "r = 0 \<longrightarrow> challenges X W fuel tp iv (ch # chs) a =
                      (case run_challenge X W fuel url ty iv tok ka b of
                         (None, c) \<Rightarrow> (Polling, c)
                       | (Some d, c) \<Rightarrow> if d then (Done, c) else (Out, c))"
    by (auto simp: c split: prod.splits option.splits)
  moreover have "\<exists>st. scan W [] Closed (trace a') = Some st \<and> (st = Dead \<longrightarrow> rc = Some EXIT_FAILURE)"
    using main_hooks[OF run] by (auto simp: hook_end_def)
  ultimately show ?thesis by blast
qed

theorem begin_exit_code_witness:
  "fst (challenges (mock_ext docs3) (mock_world routes3 Not_exited False) 5 ''THUMB''
          ''example.com'' [chal1] acme1) = Out \<and>
   challenges (mock_ext docs3) (mock_world routes3 (Exited 3) False) 5 ''THUMB''
     ''example.com'' [chal1] acme1 =
     (Next, call (Hook_run ''/tmp/h'' ''begin'' ''http-01'' ''example.com'' ''T1'' ''T1.THUMB'')
              acme1) \<and>
   fst (challenges (mock_ext docs3) (mock_world routes3 (Exited 0) False) 5 ''THUMB''
          ''example.com'' [chal1] acme1) = Done \<and>
   fst (main (mock_ext docs3) (mock_world routes3 Not_exited False) 5
          [(CHR ''h'', ''/tmp/h'')] [''issue'', ''example.com'']) = Some EXIT_FAILURE"
proof -
  let ?X = "mock_ext docs3"
  let ?W1 = "mock_world routes3 Not_exited False"
  let ?W2 = "mock_world routes3 (Exited 3) False"
  let ?W3 = "mock_world routes3 (Exited 0) False"
  let ?b = "call (Hook_run (str (hook acme1)) ''begin'' ''http-01'' ''example.com'' ''T1''
                   ''T1.THUMB'') acme1"
  let ?m = "\<lambda>W. main ?X W 5 [(CHR ''h'', ''/tmp/h'')] [''issue'', ''example.com'']"
  have hk: "nonempty (hook acme1)" by code_simp
  have h: "str (hook acme1) = ''/tmp/h''" by code_simp
  have pending: "json_compare_string ?X (Some chal1) ''status'' ''pending'' = 0" by code_simp
  have fields: "json_find_string ?X (Some chal1) ''type'' = Some ''http-01''"
    "json_find_string ?X (Some chal1) ''url'' = Some ''https://ca/chal/1''"
    "json_find_string ?X (Some chal1) ''token'' = Some ''T1''"
    by code_simp+
  have ka: "key_authorization ?X ''http-01'' ''T1'' ''THUMB'' = Some ''T1.THUMB''" by code_simp
  have run: "?m W = (fst (?m W), snd (?m W))" for W by simp
  have r1: "wait_result (w_child ?W1 (trace ?b)) < 0"
    by (simp add: mock_world_def wait_result_def)
  have r2: "0 < wait_result (w_child ?W2 (trace ?b))"
    by (simp add: mock_world_def wait_result_def)
  have r3: "wait_result (w_child ?W3 (trace ?b)) = 0"
    by (simp add: mock_world_def wait_result_def)
  have d: "fst (run_challenge ?X ?W3 5 ''https://ca/chal/1'' ''http-01'' ''example.com'' ''T1''
                  ''T1.THUMB'' ?b) = Some True"
    by code_simp
  have dead: "scan ?W1 [] Closed (trace (snd (?m ?W1))) = Some Dead" by code_simp
  note t = begin_exit_code[where chs = "[]" and fuel = 5 and iv = "''example.com''",
      OF hk pending fields ka refl refl]
  from t[OF run[of ?W1]] r1 dead
  have 1: "fst (challenges ?X ?W1 5 ''THUMB'' ''example.com'' [chal1] acme1) = Out"
    "fst (?m ?W1) = Some EXIT_FAILURE"
    by auto
  from t[OF run[of ?W2]] r2
  have 2: "challenges ?X ?W2 5 ''THUMB'' ''example.com'' [chal1] acme1 =
           (Next, call (Hook_run ''/tmp/h'' ''begin'' ''http-01'' ''example.com'' ''T1''
                          ''T1.THUMB'') acme1)"
    by (simp add: h)
  from t[OF run[of ?W3]] r3 d
  have 3: "fst (challenges ?X ?W3 5 ''THUMB'' ''example.com'' [chal1] acme1) = Done"
    by (auto split: prod.splits option.splits)
  from 1 2 3 show ?thesis by simp
qed



subsection \<open>The renewal check\<close>




lemma acct_run_prefix: "acct_run X a a' \<Longrightarrow> prefix (trace a) (trace a')"
  by (simp add: acct_run_def)










subsection \<open>What the issue flow keeps\<close>

lemma keeps_refl [simp]: "keeps a a"
  by (simp add: keeps_def)


lemma keeps_call [simp]: "keeps a (call e a)"
  by (simp add: keeps_def call_def)

















subsection \<open>The steps of the issue flow\<close>

lemma steps_iff: "prefix (trace a) (trace a') \<Longrightarrow> trace a' = trace a @ es \<Longrightarrow> steps a a' = map step_of es"
  by (simp add: steps_def new_events_def)

lemma steps_append:
  "prefix (trace a) (trace b) \<Longrightarrow> prefix (trace b) (trace c) \<Longrightarrow>
   steps a c = steps a b @ steps b c"
  by (auto simp: steps_def new_events_def prefix_def)

lemma steps_same [simp]: "steps a a = []"
  by (simp add: steps_def new_events_def)

lemma acme_post_sent:
  assumes "acme_post X W (Some u) payload a = (r, a')" and "r \<noteq> 0"
  shows "prefix (trace a) (trace a') \<and> steps a a' = [Step_post u payload]"
  using acme_post_cases[OF assms(1)] assms(2)
  by (auto simp: post_sent_def steps_def new_events_def step_of_def)

lemma acme_post_prefix: "acme_post X W url payload a = (r, a') \<Longrightarrow> prefix (trace a) (trace a')"
  using acme_post_evs[of X W url payload a r a' None] by (simp add: evs_def)




lemma poll_ready_steps:
  "poll_ready X W fuel url a = (Some True, a') \<Longrightarrow>
   prefix (trace a) (trace a') \<and> Step_post url [] \<in> set (steps a a')"
proof (induction fuel arbitrary: a)
  case 0
  then show ?case by simp
next
  case (Suc fuel)
  obtain r1 a1 where p: "acme_post X W (Some url) [] a = (r1, a1)"
    by (cases "acme_post X W (Some url) [] a")
  have r: "r1 = 200" using Suc.prems p by (auto split: if_splits)
  then have s: "prefix (trace a) (trace a1)" "steps a a1 = [Step_post url []]"
    using acme_post_sent[OF p] by simp_all
  have "a' = a1\<lparr>order := json a1, json := None\<rparr> \<or>
        poll_ready X W fuel url (sleep 5 a1) = (Some True, a')"
    using Suc.prems p r by (auto simp: Let_def split: if_splits)
  then show ?case
  proof
    assume "a' = a1\<lparr>order := json a1, json := None\<rparr>"
    with s show ?thesis by (auto simp: steps_def new_events_def)
  next
    assume q: "poll_ready X W fuel url (sleep 5 a1) = (Some True, a')"
    from Suc.IH[OF q] have i: "prefix (trace (sleep 5 a1)) (trace a')"
      by simp_all
    have p1: "prefix (trace a1) (trace a')"
      using i(1) by (auto simp: sleep_def call_def prefix_def)
    have "steps a a' = steps a a1 @ steps a1 a'" by (rule steps_append[OF s(1) p1])
    with s p1 show ?thesis
      by (auto intro: prefix_order.trans)
  qed
qed










end
